theory Spec2Isabelle
  imports Main "HOL-Library.AList"
begin

section \<open>Data model\<close>

text \<open>
  A shallow embedding of \<^verbatim>\<open>main.py\<close>. Positions are pairs of Python integers, the grid is the
  dictionary of the \<^verbatim>\<open>Maze\<close> instance (an association list in insertion order, read with
  \<open>map_of\<close> and written with \<open>AList.update\<close>), routes are Python lists in source order (the end
  of the list is the end of the route). Exceptions are values of the type \<open>error\<close>.
\<close>

type_synonym point = "int \<times> int"

datatype CellType = FREE | WALL | START | END

fun CellType_value :: "CellType \<Rightarrow> char" where
  "CellType_value FREE = CHR '' ''"
| "CellType_value WALL = CHR ''#''"
| "CellType_value START = CHR ''S''"
| "CellType_value END = CHR ''E''"

text \<open>\<^verbatim>\<open>CellType.chars_to_ct\<close>: the dictionary from each member's character to the member.\<close>

definition chars_to_ct :: "char \<Rightarrow> CellType option" where
  "chars_to_ct = map_of (map (\<lambda>member. (CellType_value member, member)) [FREE, WALL, START, END])"

datatype error =
    AssertionError
  | IndexError
  | KeyError point
  | TypeError
  | InvalidMazeChar char point
  | MultipleStartError point
  | NoStartError

record Maze =
  grid :: "(point \<times> CellType) list"
  grid_corner :: "int \<times> int"
  start_point :: point
  bfs_solution :: "point list option"
  dfs_solution :: "point list option"

fun point_neighbours :: "point \<Rightarrow> point list" where
  "point_neighbours (r, c) = [(r + 1, c), (r - 1, c), (r, c + 1), (r, c - 1)]"

text \<open>Python's \<^verbatim>\<open>range(n)\<close> for an integer \<open>n\<close>: empty when \<open>n \<le> 0\<close>.\<close>

definition py_range :: "int \<Rightarrow> int list" where
  "py_range n = map int [0..<nat n]"

section \<open>Construction from text\<close>

definition newline :: char where
  "newline = CHR 0x0A"

text \<open>\<^verbatim>\<open>str.split("\n")\<close>: never returns the empty list; the empty text gives one empty line.\<close>

fun split_newline :: "string \<Rightarrow> string list" where
  "split_newline [] = [[]]"
| "split_newline (c # cs) =
     (if c = newline then [] # split_newline cs
      else (case split_newline cs of [] \<Rightarrow> [[c]] | l # ls \<Rightarrow> (c # l) # ls))"

definition startswith :: "string \<Rightarrow> string \<Rightarrow> bool" where
  "startswith x p = (take (length p) x = p)"

text \<open>The lines that remain after the filter of \<^verbatim>\<open>Maze.__init__\<close>: not empty, not a comment.\<close>

definition raw_maze :: "string \<Rightarrow> string list" where
  "raw_maze text = filter (\<lambda>x. length x \<noteq> 0 \<and> \<not> startswith x ''//'') (split_newline text)"

text \<open>
  The inner loop of the constructor over one line, from column \<open>char_idx\<close> on. The state is the
  dictionary built so far and \<^verbatim>\<open>self.start_point\<close> (\<open>None\<close> until the start is seen).
\<close>

fun init_line :: "int \<Rightarrow> int \<Rightarrow> string \<Rightarrow> (point \<times> CellType) list \<times> point option
    \<Rightarrow> error + (point \<times> CellType) list \<times> point option" where
  "init_line line_idx char_idx [] st = Inr st"
| "init_line line_idx char_idx (c # cs) (g, sp) =
     (case chars_to_ct c of
        None \<Rightarrow> Inl (InvalidMazeChar c (line_idx, char_idx))
      | Some ct \<Rightarrow>
          (if ct = START \<and> sp \<noteq> None then Inl (MultipleStartError (line_idx, char_idx))
           else if ct = START then
             init_line line_idx (char_idx + 1) cs
               (AList.update (line_idx, char_idx) ct g, Some (line_idx, char_idx))
           else init_line line_idx (char_idx + 1) cs (AList.update (line_idx, char_idx) ct g, sp)))"

fun init_lines :: "int \<Rightarrow> string list \<Rightarrow> (point \<times> CellType) list \<times> point option
    \<Rightarrow> error + (point \<times> CellType) list \<times> point option" where
  "init_lines line_idx [] st = Inr st"
| "init_lines line_idx (l # ls) st =
     (case init_line line_idx 0 l st of
        Inl e \<Rightarrow> Inl e
      | Inr st' \<Rightarrow> init_lines (line_idx + 1) ls st')"

text \<open>
  \<^verbatim>\<open>Maze.__init__\<close> on the content of the maze file. The assertion runs once per remaining line,
  so with no line left it does not fail and \<^verbatim>\<open>raw_maze[0]\<close> raises IndexError afterwards.
\<close>

definition Maze_init :: "string \<Rightarrow> error + Maze" where
  "Maze_init text =
     (let rows = raw_maze text in
      if \<not> list_all (\<lambda>line. length line = length (hd rows)) rows then Inl AssertionError
      else if rows = [] then Inl IndexError
      else (case init_lines 0 rows ([], None) of
              Inl e \<Rightarrow> Inl e
            | Inr (g, None) \<Rightarrow> Inl NoStartError
            | Inr (g, Some sp) \<Rightarrow>
                Inr \<lparr>grid = g, grid_corner = (int (length rows), int (length (hd rows))),
                     start_point = sp, bfs_solution = None, dfs_solution = None\<rparr>))"

section \<open>Base rendering\<close>

text \<open>\<^verbatim>\<open>Maze.__str__\<close>: the two nested loops, with the string built so far as accumulator.\<close>

fun str_cols :: "(point \<times> CellType) list \<Rightarrow> int \<Rightarrow> int list \<Rightarrow> string \<Rightarrow> error + string" where
  "str_cols g row_idx [] out = Inr out"
| "str_cols g row_idx (col_idx # cols) out =
     (case map_of g (row_idx, col_idx) of
        None \<Rightarrow> Inl (KeyError (row_idx, col_idx))
      | Some ct \<Rightarrow> str_cols g row_idx cols (out @ [CellType_value ct]))"

fun str_rows :: "(point \<times> CellType) list \<Rightarrow> int list \<Rightarrow> int list \<Rightarrow> string \<Rightarrow> error + string" where
  "str_rows g [] cols out = Inr out"
| "str_rows g (row_idx # rows) cols out =
     (case str_cols g row_idx cols out of
        Inl e \<Rightarrow> Inl e
      | Inr out' \<Rightarrow> str_rows g rows cols (out' @ [newline]))"

definition Maze_str :: "Maze \<Rightarrow> error + string" where
  "Maze_str m =
     str_rows (grid m) (py_range (fst (grid_corner m))) (py_range (snd (grid_corner m))) []"

section \<open>Breadth-first search\<close>

text \<open>How a loop body ends: with the method's return value, with an exception, or by going on.\<close>

datatype 's flow = Return "point list" | Raise error | Go 's

text \<open>The loop over the neighbours of the last point of one route.\<close>

fun bfs_neighbours :: "(point \<times> CellType) list \<Rightarrow> point list \<Rightarrow> point list \<Rightarrow> point list list
    \<Rightarrow> point list list flow" where
  "bfs_neighbours g route [] new_routes = Go new_routes"
| "bfs_neighbours g route (nb_point # nbs) new_routes =
     (case map_of g nb_point of
        None \<Rightarrow> bfs_neighbours g route nbs new_routes
      | Some ct \<Rightarrow>
          (if ct = WALL then bfs_neighbours g route nbs new_routes
           else if ct = END then Return (route @ [nb_point])
           else if nb_point \<in> set route then bfs_neighbours g route nbs new_routes
           else bfs_neighbours g route nbs (new_routes @ [route @ [nb_point]])))"

text \<open>The loop over the routes of one round; \<^verbatim>\<open>route[-1]\<close> raises on an empty route.\<close>

fun bfs_routes :: "(point \<times> CellType) list \<Rightarrow> point list list \<Rightarrow> point list list
    \<Rightarrow> point list list flow" where
  "bfs_routes g [] new_routes = Go new_routes"
| "bfs_routes g (route # routes) new_routes =
     (if route = [] then Raise IndexError
      else (case bfs_neighbours g route (point_neighbours (last route)) new_routes of
              Go new_routes' \<Rightarrow> bfs_routes g routes new_routes'
            | r \<Rightarrow> r))"

text \<open>The weight of a set of routes, which every round of the search makes smaller.\<close>

definition unvisited :: "(point \<times> CellType) list \<Rightarrow> point list \<Rightarrow> nat" where
  "unvisited g route = card (fst ` set g - set route)"

definition routes_weight :: "(point \<times> CellType) list \<Rightarrow> point list list \<Rightarrow> nat" where
  "routes_weight g routes = sum_list (map (\<lambda>route. 5 ^ unvisited g route) routes)"

definition passable :: "(point \<times> CellType) list \<Rightarrow> point \<Rightarrow> bool" where
  "passable g p = (case map_of g p of None \<Rightarrow> False | Some ct \<Rightarrow> ct \<noteq> WALL \<and> ct \<noteq> END)"

lemma bfs_neighbours_Go:
  "bfs_neighbours g route nbs acc = Go new \<Longrightarrow>
   new = acc @ map (\<lambda>nb. route @ [nb]) (filter (\<lambda>nb. passable g nb \<and> nb \<notin> set route) nbs)"
proof (induction nbs arbitrary: acc)
  case Nil
  then show ?case by simp
next
  case (Cons nb nbs)
  show ?case
  proof (cases "map_of g nb")
    case None
    then show ?thesis using Cons by (simp add: passable_def)
  next
    case (Some ct)
    have p: "passable g nb \<longleftrightarrow> ct \<noteq> WALL \<and> ct \<noteq> END"
      using Some by (simp add: passable_def)
    show ?thesis
      using Cons.prems Cons.IH [of acc] Cons.IH [of "acc @ [route @ [nb]]"] Some p
      by (auto split: if_split_asm)
  qed
qed

lemma passable_in_grid: "passable g p \<Longrightarrow> p \<in> fst ` set g"
  by (auto simp: passable_def split: option.splits dest!: map_of_SomeD intro: rev_image_eqI)

lemma unvisited_extend:
  assumes "p \<in> fst ` set g" "p \<notin> set route"
  shows "Suc (unvisited g (route @ [p])) = unvisited g route"
proof -
  have "fst ` set g - set (route @ [p]) = (fst ` set g - set route) - {p}" by auto
  moreover have "p \<in> fst ` set g - set route" using assms by simp
  moreover have "finite (fst ` set g - set route)" by simp
  ultimately show ?thesis unfolding unvisited_def
    by (metis card_Suc_Diff1)
qed

lemma routes_weight_append [simp]:
  "routes_weight g (xs @ ys) = routes_weight g xs + routes_weight g ys"
  by (simp add: routes_weight_def)

lemma routes_weight_extensions:
  assumes "\<forall>p\<in>set ext. passable g p \<and> p \<notin> set route"
  shows "5 * routes_weight g (map (\<lambda>nb. route @ [nb]) ext) = length ext * 5 ^ unvisited g route"
  using assms
proof (induction ext)
  case Nil
  then show ?case by (simp add: routes_weight_def)
next
  case (Cons p ext)
  have "Suc (unvisited g (route @ [p])) = unvisited g route"
    using Cons.prems by (intro unvisited_extend passable_in_grid) auto
  then have "5 * 5 ^ unvisited g (route @ [p]) = (5::nat) ^ unvisited g route"
    by (metis power_Suc)
  moreover have "5 * routes_weight g (map (\<lambda>nb. route @ [nb]) ext) = length ext * 5 ^ unvisited g route"
    using Cons by simp
  ultimately show ?case by (simp add: routes_weight_def algebra_simps)
qed

lemma bfs_neighbours_weight:
  assumes "bfs_neighbours g route nbs acc = Go new" "length nbs \<le> 4"
  shows "routes_weight g new < routes_weight g acc + 5 ^ unvisited g route"
proof -
  let ?ext = "filter (\<lambda>nb. passable g nb \<and> nb \<notin> set route) nbs"
  have new: "new = acc @ map (\<lambda>nb. route @ [nb]) ?ext"
    using assms(1) by (rule bfs_neighbours_Go)
  have "5 * routes_weight g (map (\<lambda>nb. route @ [nb]) ?ext) = length ?ext * 5 ^ unvisited g route"
    by (rule routes_weight_extensions) simp
  moreover have "length ?ext \<le> 4"
    using assms(2) length_filter_le [of _ nbs] by (meson le_trans)
  ultimately have "5 * routes_weight g (map (\<lambda>nb. route @ [nb]) ?ext) \<le> 4 * 5 ^ unvisited g route"
    by simp
  moreover have "(0::nat) < 5 ^ unvisited g route" by simp
  ultimately have "routes_weight g (map (\<lambda>nb. route @ [nb]) ?ext) < 5 ^ unvisited g route"
    by linarith
  then show ?thesis by (simp add: new)
qed

lemma length_point_neighbours [simp]: "length (point_neighbours p) = 4"
  by (cases p) simp

lemma bfs_routes_weight:
  "bfs_routes g routes acc = Go new \<Longrightarrow>
   routes_weight g new \<le> routes_weight g acc + routes_weight g routes \<and>
   (routes \<noteq> [] \<longrightarrow> routes_weight g new < routes_weight g acc + routes_weight g routes)"
proof (induction routes arbitrary: acc)
  case Nil
  then show ?case by (simp add: routes_weight_def)
next
  case (Cons route routes)
  from Cons.prems obtain acc' where
    nb: "bfs_neighbours g route (point_neighbours (last route)) acc = Go acc'" and
    rest: "bfs_routes g routes acc' = Go new"
    by (auto split: if_splits flow.splits)
  have "routes_weight g acc' < routes_weight g acc + 5 ^ unvisited g route"
    using nb by (rule bfs_neighbours_weight) simp
  moreover have "routes_weight g new \<le> routes_weight g acc' + routes_weight g routes"
    using Cons.IH [OF rest] by simp
  moreover have "routes_weight g (route # routes) = 5 ^ unvisited g route + routes_weight g routes"
    by (simp add: routes_weight_def)
  ultimately show ?case by simp
qed

function bfs_loop :: "(point \<times> CellType) list \<Rightarrow> point list list \<Rightarrow> error + point list option" where
  "bfs_loop g routes =
     (if routes = [] then Inr None
      else (case bfs_routes g routes [] of
              Return solution \<Rightarrow> Inr (Some solution)
            | Raise e \<Rightarrow> Inl e
            | Go new_routes \<Rightarrow> bfs_loop g new_routes))"
  by pat_completeness auto
termination bfs_loop
proof (relation "measure (\<lambda>(g, routes). routes_weight g routes)")
  show "wf (measure (\<lambda>(g, routes). routes_weight g routes))" by simp
next
  fix g :: "(point \<times> CellType) list" and routes new_routes :: "point list list"
  assume "routes \<noteq> []" "bfs_routes g routes [] = Go new_routes"
  then have "routes_weight g new_routes < routes_weight g [] + routes_weight g routes"
    using bfs_routes_weight by blast
  then show "((g, new_routes), (g, routes)) \<in> measure (\<lambda>(g, routes). routes_weight g routes)"
    by (simp add: routes_weight_def)
qed

declare bfs_loop.simps [simp del]


section \<open>Depth-first search\<close>

text \<open>\<^verbatim>\<open>list.pop(idx)\<close> for an index in range.\<close>

definition pop_at :: "nat \<Rightarrow> 'a list \<Rightarrow> 'a list" where
  "pop_at idx xs = take idx xs @ drop (Suc idx) xs"

fun dfs_neighbours :: "(point \<times> CellType) list \<Rightarrow> point list \<Rightarrow> (nat \<times> point) list \<Rightarrow> nat list
    \<Rightarrow> nat list flow" where
  "dfs_neighbours g route [] point_to_remove = Go point_to_remove"
| "dfs_neighbours g route ((idx, nb_point) # nbs) point_to_remove =
     (case map_of g nb_point of
        None \<Rightarrow> dfs_neighbours g route nbs (point_to_remove @ [idx])
      | Some ct \<Rightarrow>
          (if ct = WALL then dfs_neighbours g route nbs (point_to_remove @ [idx])
           else if ct = END then Return (route @ [nb_point])
           else if nb_point \<in> set route then dfs_neighbours g route nbs (point_to_remove @ [idx])
           else dfs_neighbours g route nbs point_to_remove))"

function backtrace :: "point list \<Rightarrow> point list list \<Rightarrow> error + point list \<times> point list list" where
  "backtrace route possible_steps =
     (if possible_steps = [] then Inl IndexError
      else if length (last possible_steps) = 0 then
        (if route = [] then Inl IndexError
         else backtrace (butlast route) (butlast possible_steps))
      else Inr (route, possible_steps))"
  by pat_completeness auto
termination backtrace
  by (relation "measure (\<lambda>(route, possible_steps). length possible_steps)") auto

declare backtrace.simps [simp del]

fun frames_weight :: "(point \<times> CellType) list \<Rightarrow> point list \<Rightarrow> point list list \<Rightarrow> nat" where
  "frames_weight g rev_route [] = 0"
| "frames_weight g rev_route (frame # frames) =
     sum_list (map (\<lambda>a. 5 ^ unvisited g (a # tl rev_route)) frame)
       + frames_weight g (tl rev_route) frames"

definition dfs_weight :: "(point \<times> CellType) list \<Rightarrow> point list \<Rightarrow> point list list \<Rightarrow> nat" where
  "dfs_weight g route possible_steps =
     5 ^ unvisited g route + frames_weight g (rev route) (rev possible_steps)"

lemma dfs_neighbours_Go:
  "dfs_neighbours g route nbs acc = Go ptr \<Longrightarrow>
   ptr = acc @ map fst (filter (\<lambda>(idx, nb). \<not> (passable g nb \<and> nb \<notin> set route)) nbs)"
proof (induction nbs arbitrary: acc)
  case Nil
  then show ?case by simp
next
  case (Cons inb nbs)
  obtain idx nb where inb: "inb = (idx, nb)" by (cases inb)
  show ?case
  proof (cases "map_of g nb")
    case None
    then have p: "\<not> passable g nb" by (simp add: passable_def)
    show ?thesis
      using Cons.prems Cons.IH [of "acc @ [idx]"] None p inb by auto
  next
    case (Some ct)
    have p: "passable g nb \<longleftrightarrow> ct \<noteq> WALL \<and> ct \<noteq> END"
      using Some by (simp add: passable_def)
    show ?thesis
      using Cons.prems Cons.IH [of acc] Cons.IH [of "acc @ [idx]"] Some p inb
      by (auto split: if_split_asm)
  qed
qed

lemma fold_pop_at_append:
  "sorted_wrt (>) idxs \<Longrightarrow> \<forall>i\<in>set idxs. i < length xs \<Longrightarrow>
   fold pop_at idxs (xs @ ys) = fold pop_at idxs xs @ ys"
proof (induction idxs arbitrary: xs)
  case Nil
  then show ?case by simp
next
  case (Cons i idxs)
  have i: "i < length xs" using Cons.prems by simp
  have "pop_at i (xs @ ys) = pop_at i xs @ ys"
    using i by (simp add: pop_at_def)
  moreover have "\<forall>j\<in>set idxs. j < length (pop_at i xs)"
    using Cons.prems i by (auto simp: pop_at_def)
  moreover have "sorted_wrt (>) idxs" using Cons.prems by simp
  ultimately show ?case using Cons.IH by simp
qed

lemma removed_indices_bounds:
  "\<forall>i\<in>set (map fst (filter P (List.enumerate n xs))). n \<le> i \<and> i < n + length xs"
  by (auto simp: enumerate_eq_zip dest!: set_zip_leftD)

lemma removed_indices_sorted:
  "sorted_wrt (<) (map fst (filter P (List.enumerate n xs)))"
proof -
  have "sorted_wrt (<) (map fst (List.enumerate n xs))" by simp
  then show ?thesis
    by (metis (no_types, lifting) sorted_wrt_filter sorted_wrt_map)
qed

lemma fold_pop_at_removed:
  "fold pop_at (rev (map fst (filter (\<lambda>(idx, x). \<not> K x) (List.enumerate 0 xs)))) xs = filter K xs"
proof (induction xs rule: rev_induct)
  case Nil
  then show ?case by simp
next
  case (snoc x xs)
  let ?R = "map fst (filter (\<lambda>(idx, x). \<not> K x) (List.enumerate 0 xs))"
  have en: "List.enumerate 0 (xs @ [x]) = List.enumerate 0 xs @ [(length xs, x)]"
    by (simp add: enumerate_append_eq)
  show ?case
  proof (cases "K x")
    case True
    have "sorted_wrt (>) (rev ?R)"
      using removed_indices_sorted [of "\<lambda>(idx, x). \<not> K x" 0 xs]
      by (simp add: sorted_wrt_rev)
    moreover have "\<forall>i\<in>set (rev ?R). i < length xs"
      using removed_indices_bounds [of "\<lambda>(idx, x). \<not> K x" 0 xs] by simp
    ultimately have "fold pop_at (rev ?R) (xs @ [x]) = fold pop_at (rev ?R) xs @ [x]"
      by (rule fold_pop_at_append)
    then show ?thesis using True snoc by (simp add: en)
  next
    case False
    have "pop_at (length xs) (xs @ [x]) = xs" by (simp add: pop_at_def)
    then show ?thesis using False snoc by (simp add: en)
  qed
qed

lemma rev_butlast_tl: "rev (butlast xs) = tl (rev xs)"
  by (induction xs rule: rev_induct) auto

lemma backtrace_weight:
  "backtrace route ps = Inr (route', ps') \<Longrightarrow>
   frames_weight g (rev route') (rev ps') = frames_weight g (rev route) (rev ps) \<and>
   ps' \<noteq> [] \<and> last ps' \<noteq> []"
proof (induction route ps rule: backtrace.induct)
  case (1 route ps)
  show ?case
  proof (cases "ps \<noteq> [] \<and> last ps = []")
    case True
    then have r: "route \<noteq> []" and rec: "backtrace (butlast route) (butlast ps) = Inr (route', ps')"
      using "1.prems" by (auto simp: backtrace.simps [of route ps] split: if_split_asm)
    obtain fs where ps: "ps = fs @ [[]]"
      using True by (metis append_butlast_last_id)
    have "frames_weight g (rev route) (rev ps)
        = frames_weight g (rev (butlast route)) (rev (butlast ps))"
      unfolding ps by (simp add: rev_butlast_tl)
    then show ?thesis using "1.IH" [OF _ _ _ rec] True r by simp
  next
    case False
    then show ?thesis using "1.prems" by (auto simp: backtrace.simps [of route ps] split: if_split_asm)
  qed
qed

lemma unvisited_cong: "set r = set r' \<Longrightarrow> unvisited g r = unvisited g r'"
  by (simp add: unvisited_def)

lemma frames_weight_top:
  assumes "\<forall>a\<in>set frame. passable g a \<and> a \<notin> set route"
  shows "5 * sum_list (map (\<lambda>a. 5 ^ unvisited g (a # rev route)) frame)
         = length frame * 5 ^ unvisited g route"
  using assms
proof (induction frame)
  case Nil
  then show ?case by simp
next
  case (Cons p frame)
  have "unvisited g (p # rev route) = unvisited g (route @ [p])"
    by (rule unvisited_cong) auto
  moreover have "Suc (unvisited g (route @ [p])) = unvisited g route"
    using Cons.prems by (intro unvisited_extend passable_in_grid) auto
  ultimately have "5 * 5 ^ unvisited g (p # rev route) = (5::nat) ^ unvisited g route"
    by (metis power_Suc)
  moreover have "5 * sum_list (map (\<lambda>a. 5 ^ unvisited g (a # rev route)) frame)
         = length frame * 5 ^ unvisited g route"
    using Cons by simp
  ultimately show ?case by (simp add: algebra_simps)
qed

lemma dfs_descend_weight:
  assumes "\<forall>a\<in>set kept. passable g a \<and> a \<notin> set route" "kept \<noteq> []" "length kept \<le> 4"
  shows "dfs_weight g (route @ [last kept]) (ps @ [butlast kept]) < dfs_weight g route ps"
proof -
  let ?u = "(5::nat) ^ unvisited g route"
  have last: "passable g (last kept)" "last kept \<notin> set route"
    using assms(1,2) last_in_set by blast+
  have "Suc (unvisited g (route @ [last kept])) = unvisited g route"
    using last by (intro unvisited_extend passable_in_grid)
  then have a: "5 * 5 ^ unvisited g (route @ [last kept]) = ?u"
    by (metis power_Suc)
  have "\<forall>a\<in>set (butlast kept). passable g a \<and> a \<notin> set route"
    using assms(1) by (meson in_set_butlastD)
  then have b: "5 * sum_list (map (\<lambda>a. 5 ^ unvisited g (a # rev route)) (butlast kept))
      = length (butlast kept) * ?u"
    by (rule frames_weight_top)
  have "5 * (5 ^ unvisited g (route @ [last kept])
         + sum_list (map (\<lambda>a. 5 ^ unvisited g (a # rev route)) (butlast kept)))
      = length kept * ?u"
  proof -
    have "length kept = Suc (length (butlast kept))" using assms(2) by simp
    then show ?thesis using a b by (simp add: algebra_simps)
  qed
  also have "\<dots> \<le> 4 * ?u" using assms(3) by simp
  also have "\<dots> < 5 * ?u" by simp
  finally have "5 ^ unvisited g (route @ [last kept])
         + sum_list (map (\<lambda>a. 5 ^ unvisited g (a # rev route)) (butlast kept)) < ?u"
    by simp
  then show ?thesis by (simp add: dfs_weight_def)
qed

lemma dfs_backtrack_weight:
  assumes "ps \<noteq> []" "last ps \<noteq> []" "route \<noteq> []"
  shows "dfs_weight g (butlast route @ [last (last ps)]) (butlast ps @ [butlast (last ps)])
         = frames_weight g (rev route) (rev ps)"
proof -
  obtain fs f where ps: "ps = fs @ [f]" using assms(1) by (metis append_butlast_last_id)
  obtain f' a where f: "f = f' @ [a]" using assms(2) ps by (metis append_butlast_last_id last_snoc)
  have "unvisited g (butlast route @ [a]) = unvisited g (a # tl (rev route))"
    by (rule unvisited_cong) (simp add: rev_butlast_tl [symmetric])
  then show ?thesis
    by (simp add: ps f dfs_weight_def rev_butlast_tl)
qed

function dfs_loop :: "(point \<times> CellType) list \<Rightarrow> point list \<Rightarrow> point list list
    \<Rightarrow> error + point list option" where
  "dfs_loop g route possible_steps =
     (if route = [] then Inr None
      else (case dfs_neighbours g route (List.enumerate 0 (point_neighbours (last route))) [] of
              Return solution \<Rightarrow> Inr (Some solution)
            | Raise e \<Rightarrow> Inl e
            | Go point_to_remove \<Rightarrow>
                (let nb_points = fold pop_at (rev point_to_remove) (point_neighbours (last route)) in
                 if length nb_points > 0 then
                   dfs_loop g (route @ [last nb_points]) (possible_steps @ [butlast nb_points])
                 else if length possible_steps > 0 then
                   (case backtrace route possible_steps of
                      Inl e \<Rightarrow> Inl e
                    | Inr (route', possible_steps') \<Rightarrow>
                        if length possible_steps' = 0 then Inr None
                        else if route' = [] then Inl IndexError
                        else dfs_loop g (butlast route' @ [last (last possible_steps')])
                               (butlast possible_steps' @ [butlast (last possible_steps')]))
                 else Inr None)))"
  by pat_completeness auto
termination dfs_loop
proof (relation "measure (\<lambda>(g, route, possible_steps). dfs_weight g route possible_steps)")
  show "wf (measure (\<lambda>(g, route, possible_steps). dfs_weight g route possible_steps))" by simp
next
  fix g :: "(point \<times> CellType) list" and route :: "point list" and possible_steps :: "point list list"
    and ptr nb_points
  assume "route \<noteq> []"
    and go: "dfs_neighbours g route (List.enumerate 0 (point_neighbours (last route))) [] = Go ptr"
    and nb: "nb_points = fold pop_at (rev ptr) (point_neighbours (last route))"
    and ne: "0 < length nb_points"
  have ptr: "ptr = map fst (filter (\<lambda>(idx, nb). \<not> (passable g nb \<and> nb \<notin> set route))
      (List.enumerate 0 (point_neighbours (last route))))"
    using dfs_neighbours_Go [OF go] unfolding append_Nil .
  have "nb_points = filter (\<lambda>nb. passable g nb \<and> nb \<notin> set route) (point_neighbours (last route))"
    unfolding nb ptr by (rule fold_pop_at_removed)
  then have "\<forall>a\<in>set nb_points. passable g a \<and> a \<notin> set route" "length nb_points \<le> 4"
    using length_filter_le [of _ "point_neighbours (last route)"] by auto
  then have "dfs_weight g (route @ [last nb_points]) (possible_steps @ [butlast nb_points])
      < dfs_weight g route possible_steps"
    using ne by (intro dfs_descend_weight) auto
  then show "((g, route @ [last nb_points], possible_steps @ [butlast nb_points]), g, route, possible_steps)
      \<in> measure (\<lambda>(g, route, possible_steps). dfs_weight g route possible_steps)"
    by simp
next
  fix g :: "(point \<times> CellType) list" and route :: "point list" and possible_steps :: "point list list"
    and ptr nb_points x2 route' possible_steps'
  assume bt: "backtrace route possible_steps = Inr x2" and x2: "(route', possible_steps') = x2"
    and ne: "length possible_steps' \<noteq> 0" "route' \<noteq> []"
  have bt': "backtrace route possible_steps = Inr (route', possible_steps')" using bt x2 by simp
  have "dfs_weight g (butlast route' @ [last (last possible_steps')])
          (butlast possible_steps' @ [butlast (last possible_steps')])
        = frames_weight g (rev route) (rev possible_steps)"
    using backtrace_weight [OF bt', of g] ne by (simp add: dfs_backtrack_weight)
  also have "\<dots> < dfs_weight g route possible_steps" by (simp add: dfs_weight_def)
  finally show "((g, butlast route' @ [last (last possible_steps')],
           butlast possible_steps' @ [butlast (last possible_steps')]), g, route, possible_steps)
      \<in> measure (\<lambda>(g, route, possible_steps). dfs_weight g route possible_steps)"
    by simp
qed

declare dfs_loop.simps [simp del]

section \<open>The search methods\<close>

text \<open>
  \<^verbatim>\<open>Maze.breadth_first_search\<close> and \<^verbatim>\<open>Maze.depth_first_search\<close>: the result and the maze
  after the call. \<open>Inr None\<close> is Python's \<^verbatim>\<open>None\<close>, returned after the message that no solution
  was found (the message itself, written to the standard output, is not modelled).
\<close>

definition breadth_first_search :: "Maze \<Rightarrow> (error + point list option) \<times> Maze" where
  "breadth_first_search m =
     (case bfs_loop (grid m) [[start_point m]] of
        Inr (Some solution) \<Rightarrow> (Inr (Some solution), m\<lparr>bfs_solution := Some solution\<rparr>)
      | r \<Rightarrow> (r, m))"

definition depth_first_search :: "Maze \<Rightarrow> (error + point list option) \<times> Maze" where
  "depth_first_search m =
     (case dfs_loop (grid m) [start_point m] [] of
        Inr (Some solution) \<Rightarrow> (Inr (Some solution), m\<lparr>dfs_solution := Some solution\<rparr>)
      | r \<Rightarrow> (r, m))"

section \<open>Rendering a solution\<close>

text \<open>
  The rendering loops of \<^verbatim>\<open>view_bfs\<close> and \<^verbatim>\<open>view_dfs\<close>, which differ only in the solution
  they read. With no solution stored, the membership test on \<^verbatim>\<open>None\<close> raises TypeError.
\<close>

fun view_cols :: "(point \<times> CellType) list \<Rightarrow> point list option \<Rightarrow> int \<Rightarrow> int list \<Rightarrow> string
    \<Rightarrow> error + string" where
  "view_cols g solution row_idx [] out = Inr out"
| "view_cols g solution row_idx (col_idx # cols) out =
     (case solution of
        None \<Rightarrow> Inl TypeError
      | Some path \<Rightarrow>
          (if (row_idx, col_idx) \<in> set path then
             view_cols g solution row_idx cols (out @ [CHR ''*''])
           else (case map_of g (row_idx, col_idx) of
                   None \<Rightarrow> Inl (KeyError (row_idx, col_idx))
                 | Some ct \<Rightarrow> view_cols g solution row_idx cols (out @ [CellType_value ct]))))"

fun view_rows :: "(point \<times> CellType) list \<Rightarrow> point list option \<Rightarrow> int list \<Rightarrow> int list \<Rightarrow> string
    \<Rightarrow> error + string" where
  "view_rows g solution [] cols out = Inr out"
| "view_rows g solution (row_idx # rows) cols out =
     (case view_cols g solution row_idx cols out of
        Inl e \<Rightarrow> Inl e
      | Inr out' \<Rightarrow> view_rows g solution rows cols (out' @ [newline]))"

definition view :: "Maze \<Rightarrow> point list option \<Rightarrow> error + string" where
  "view m solution =
     view_rows (grid m) solution (py_range (fst (grid_corner m))) (py_range (snd (grid_corner m))) []"

text \<open>
  \<^verbatim>\<open>view_bfs\<close> and \<^verbatim>\<open>view_dfs\<close>: the search runs only when no solution is stored; an exception
  of the search leaves the method at once.
\<close>

definition view_bfs :: "Maze \<Rightarrow> (error + string) \<times> Maze" where
  "view_bfs m =
     (if bfs_solution m = None then
        (case breadth_first_search m of
           (Inl e, m') \<Rightarrow> (Inl e, m')
         | (Inr r, m') \<Rightarrow> (view m' (bfs_solution m'), m'))
      else (view m (bfs_solution m), m))"

definition view_dfs :: "Maze \<Rightarrow> (error + string) \<times> Maze" where
  "view_dfs m =
     (if dfs_solution m = None then
        (case depth_first_search m of
           (Inl e, m') \<Rightarrow> (Inl e, m')
         | (Inr r, m') \<Rightarrow> (view m' (dfs_solution m'), m'))
      else (view m (dfs_solution m), m))"

section \<open>Example mazes\<close>

text \<open>The maze of the one-line text \<^verbatim>\<open>"S "\<close>: a start and one free cell, no end.\<close>

definition maze_dead_end :: Maze where
  "maze_dead_end =
     \<lparr>grid = [((0, 0), START), ((0, 1), FREE)], grid_corner = (1, 2), start_point = (0, 0),
      bfs_solution = None, dfs_solution = None\<rparr>"

text \<open>The maze of the two-line text \<^verbatim>\<open>"S \n  "\<close>: four open cells, no end.\<close>

definition maze_open_square :: Maze where
  "maze_open_square =
     \<lparr>grid = [((0, 0), START), ((0, 1), FREE), ((1, 0), FREE), ((1, 1), FREE)],
      grid_corner = (2, 2), start_point = (0, 0), bfs_solution = None, dfs_solution = None\<rparr>"

text \<open>The maze of the scenario of the specification: three rows \<^verbatim>\<open>"S  "\<close>, \<^verbatim>\<open>" # "\<close>, \<^verbatim>\<open>"  E"\<close>.\<close>

definition maze_scenario :: Maze where
  "maze_scenario =
     \<lparr>grid = [((0, 0), START), ((0, 1), FREE), ((0, 2), FREE),
              ((1, 0), FREE), ((1, 1), WALL), ((1, 2), FREE),
              ((2, 0), FREE), ((2, 1), FREE), ((2, 2), END)],
      grid_corner = (3, 3), start_point = (0, 0), bfs_solution = None, dfs_solution = None\<rparr>"

lemma Maze_init_dead_end: "Maze_init ''S '' = Inr maze_dead_end"
  by code_simp

lemma Maze_init_open_square: "Maze_init (''S '' @ [newline] @ ''  '') = Inr maze_open_square"
  by code_simp

lemma Maze_init_scenario:
  "Maze_init (''S  '' @ [newline] @ '' # '' @ [newline] @ ''  E'') = Inr maze_scenario"
  by code_simp

lemma bfs_scenario:
  "breadth_first_search maze_scenario =
     (Inr (Some [(0, 0), (1, 0), (2, 0), (2, 1), (2, 2)]),
      maze_scenario\<lparr>bfs_solution := Some [(0, 0), (1, 0), (2, 0), (2, 1), (2, 2)]\<rparr>)"
  by code_simp

lemma dfs_scenario:
  "depth_first_search maze_scenario =
     (Inr (Some [(0, 0), (0, 1), (0, 2), (1, 2), (2, 2)]),
      maze_scenario\<lparr>dfs_solution := Some [(0, 0), (0, 1), (0, 2), (1, 2), (2, 2)]\<rparr>)"
  by code_simp

section \<open>Searching a maze with no reachable end\<close>

text \<open>
  Claim C3: on a well-formed maze in which no END cell can be reached, both searches report
  NotFound and neither raises an exception. The code does not do this for the depth-first search.
  On the maze of the text \<^verbatim>\<open>"S "\<close> the breadth-first search returns \<^verbatim>\<open>None\<close>, while the
  depth-first search walks to the free cell, finds no neighbour left and backtraces: the loop
  \<^verbatim>\<open>while len(possible_steps[-1]) == 0\<close> pops the only frame and then reads
  \<^verbatim>\<open>possible_steps[-1]\<close> of the empty list, so the test for an exhausted stack after the loop is
  never reached and the call ends with IndexError.
\<close>

theorem dfs_dead_end_raises:
  "Maze_init ''S '' = Inr maze_dead_end \<and>
   fst (breadth_first_search maze_dead_end) = Inr None \<and>
   fst (depth_first_search maze_dead_end) = Inl IndexError"
  by code_simp

text \<open>
  Claim C4: on a well-formed finite maze both searches terminate, either returning a path or
  reporting NotFound. Both loops do terminate (\<open>bfs_loop\<close> and \<open>dfs_loop\<close> are total, by the
  weights \<open>routes_weight\<close> and \<open>dfs_weight\<close>), but the depth-first search may end in neither
  of the two ways: on the open two by two maze without an end it raises IndexError, by the same
  backtrace loop, where the breadth-first search returns \<^verbatim>\<open>None\<close>.
\<close>

theorem dfs_open_square_raises:
  "Maze_init (''S '' @ [newline] @ ''  '') = Inr maze_open_square \<and>
   breadth_first_search maze_open_square = (Inr None, maze_open_square) \<and>
   depth_first_search maze_open_square = (Inl IndexError, maze_open_square)"
  by code_simp

section \<open>What the methods change\<close>

text \<open>
  Claim C9: neither search and neither view method modifies the grid, the grid dimensions or the
  start point; the only field of the maze that \<^verbatim>\<open>breadth_first_search\<close> and \<^verbatim>\<open>view_bfs\<close> may
  change is \<^verbatim>\<open>bfs_solution\<close>, and the only field that \<^verbatim>\<open>depth_first_search\<close> and
  \<^verbatim>\<open>view_dfs\<close> may change is \<^verbatim>\<open>dfs_solution\<close>. The maze after each call is the maze before
  it with at most that field updated.
\<close>

theorem search_and_view_frame:
  "(\<exists>s. snd (breadth_first_search m) = m\<lparr>bfs_solution := s\<rparr>) \<and>
   (\<exists>s. snd (depth_first_search m) = m\<lparr>dfs_solution := s\<rparr>) \<and>
   (\<exists>s. snd (view_bfs m) = m\<lparr>bfs_solution := s\<rparr>) \<and>
   (\<exists>s. snd (view_dfs m) = m\<lparr>dfs_solution := s\<rparr>)"
proof -
  have bfs: "\<exists>s. snd (breadth_first_search m) = m\<lparr>bfs_solution := s\<rparr>" for m
  proof (cases "bfs_loop (grid m) [[start_point m]]")
    case (Inl e)
    then have "snd (breadth_first_search m) = m\<lparr>bfs_solution := bfs_solution m\<rparr>"
      by (simp add: breadth_first_search_def)
    then show ?thesis ..
  next
    case (Inr r)
    then show ?thesis
    proof (cases r)
      case None
      then have "snd (breadth_first_search m) = m\<lparr>bfs_solution := bfs_solution m\<rparr>"
        using Inr by (simp add: breadth_first_search_def)
      then show ?thesis ..
    next
      case (Some solution)
      then have "snd (breadth_first_search m) = m\<lparr>bfs_solution := Some solution\<rparr>"
        using Inr by (simp add: breadth_first_search_def)
      then show ?thesis ..
    qed
  qed
  have dfs: "\<exists>s. snd (depth_first_search m) = m\<lparr>dfs_solution := s\<rparr>" for m
  proof (cases "dfs_loop (grid m) [start_point m] []")
    case (Inl e)
    then have "snd (depth_first_search m) = m\<lparr>dfs_solution := dfs_solution m\<rparr>"
      by (simp add: depth_first_search_def)
    then show ?thesis ..
  next
    case (Inr r)
    then show ?thesis
    proof (cases r)
      case None
      then have "snd (depth_first_search m) = m\<lparr>dfs_solution := dfs_solution m\<rparr>"
        using Inr by (simp add: depth_first_search_def)
      then show ?thesis ..
    next
      case (Some solution)
      then have "snd (depth_first_search m) = m\<lparr>dfs_solution := Some solution\<rparr>"
        using Inr by (simp add: depth_first_search_def)
      then show ?thesis ..
    qed
  qed
  have vb: "\<exists>s. snd (view_bfs m) = m\<lparr>bfs_solution := s\<rparr>"
  proof (cases "bfs_solution m = None")
    case True
    obtain r m' where bm: "breadth_first_search m = (r, m')" by (cases "breadth_first_search m")
    then have "snd (view_bfs m) = m'"
      using True by (cases r) (simp_all add: view_bfs_def)
    then show ?thesis using bfs [of m] bm by simp
  next
    case False
    then have "snd (view_bfs m) = m\<lparr>bfs_solution := bfs_solution m\<rparr>"
      by (auto simp: view_bfs_def)
    then show ?thesis ..
  qed
  have vd: "\<exists>s. snd (view_dfs m) = m\<lparr>dfs_solution := s\<rparr>"
  proof (cases "dfs_solution m = None")
    case True
    obtain r m' where bm: "depth_first_search m = (r, m')" by (cases "depth_first_search m")
    then have "snd (view_dfs m) = m'"
      using True by (cases r) (simp_all add: view_dfs_def)
    then show ?thesis using dfs [of m] bm by simp
  next
    case False
    then have "snd (view_dfs m) = m\<lparr>dfs_solution := dfs_solution m\<rparr>"
      by (auto simp: view_dfs_def)
    then show ?thesis ..
  qed
  show ?thesis using bfs dfs vb vd by blast
qed

section \<open>Rendering twice\<close>

text \<open>
  The view methods with a counter: the last component is the number of calls of the search
  method that the call of the view method makes. Without it, they are the view methods.
\<close>

definition view_bfs_counted :: "Maze \<Rightarrow> (error + string) \<times> Maze \<times> nat" where
  "view_bfs_counted m =
     (if bfs_solution m = None then
        (case breadth_first_search m of
           (Inl e, m') \<Rightarrow> (Inl e, m', 1)
         | (Inr r, m') \<Rightarrow> (view m' (bfs_solution m'), m', 1))
      else (view m (bfs_solution m), m, 0))"

definition view_dfs_counted :: "Maze \<Rightarrow> (error + string) \<times> Maze \<times> nat" where
  "view_dfs_counted m =
     (if dfs_solution m = None then
        (case depth_first_search m of
           (Inl e, m') \<Rightarrow> (Inl e, m', 1)
         | (Inr r, m') \<Rightarrow> (view m' (dfs_solution m'), m', 1))
      else (view m (dfs_solution m), m, 0))"

lemma view_bfs_counted_erase:
  "view_bfs m = (fst (view_bfs_counted m), fst (snd (view_bfs_counted m)))"
  by (auto simp: view_bfs_def view_bfs_counted_def split: prod.splits sum.splits)

lemma view_dfs_counted_erase:
  "view_dfs m = (fst (view_dfs_counted m), fst (snd (view_dfs_counted m)))"
  by (auto simp: view_dfs_def view_dfs_counted_def split: prod.splits sum.splits)

lemma breadth_first_search_maze:
  "breadth_first_search m = (r, m') \<Longrightarrow>
   (case r of Inr (Some solution) \<Rightarrow> m' = m\<lparr>bfs_solution := Some solution\<rparr> | _ \<Rightarrow> m' = m)"
  by (auto simp: breadth_first_search_def split: sum.splits option.splits)

lemma depth_first_search_maze:
  "depth_first_search m = (r, m') \<Longrightarrow>
   (case r of Inr (Some solution) \<Rightarrow> m' = m\<lparr>dfs_solution := Some solution\<rparr> | _ \<Rightarrow> m' = m)"
  by (auto simp: depth_first_search_def split: sum.splits option.splits)

lemma view_bfs_second:
  assumes "bfs_solution (snd (view_bfs m)) \<noteq> None"
  shows "view_bfs_counted (snd (view_bfs m)) = (fst (view_bfs m), snd (view_bfs m), 0)"
proof (cases "bfs_solution m = None")
  case False
  then have "view_bfs m = (view m (bfs_solution m), m)" by (auto simp: view_bfs_def)
  then show ?thesis using False by (auto simp: view_bfs_counted_def)
next
  case True
  obtain r m' where bm: "breadth_first_search m = (r, m')" by (cases "breadth_first_search m")
  show ?thesis
  proof (cases r)
    case (Inl e)
    then have "snd (view_bfs m) = m" using True bm breadth_first_search_maze [OF bm]
      by (simp add: view_bfs_def)
    then show ?thesis using assms True by simp
  next
    case (Inr found)
    then have v: "view_bfs m = (view m' (bfs_solution m'), m')"
      using True bm by (simp add: view_bfs_def)
    then have "bfs_solution m' \<noteq> None" using assms by simp
    then show ?thesis using v by (auto simp: view_bfs_counted_def)
  qed
qed

lemma view_dfs_second:
  assumes "dfs_solution (snd (view_dfs m)) \<noteq> None"
  shows "view_dfs_counted (snd (view_dfs m)) = (fst (view_dfs m), snd (view_dfs m), 0)"
proof (cases "dfs_solution m = None")
  case False
  then have "view_dfs m = (view m (dfs_solution m), m)" by (auto simp: view_dfs_def)
  then show ?thesis using False by (auto simp: view_dfs_counted_def)
next
  case True
  obtain r m' where bm: "depth_first_search m = (r, m')" by (cases "depth_first_search m")
  show ?thesis
  proof (cases r)
    case (Inl e)
    then have "snd (view_dfs m) = m" using True bm depth_first_search_maze [OF bm]
      by (simp add: view_dfs_def)
    then show ?thesis using assms True by simp
  next
    case (Inr found)
    then have v: "view_dfs m = (view m' (dfs_solution m'), m')"
      using True bm by (simp add: view_dfs_def)
    then have "dfs_solution m' \<noteq> None" using assms by simp
    then show ?thesis using v by (auto simp: view_dfs_counted_def)
  qed
qed

text \<open>
  Claim C5: once the solution of a search is computed and stored in the maze, a further call of
  the view method of that search returns the same output as the first call and does not call the
  search again. Stated for the maze that a first call of the view method leaves behind: if that
  maze holds a solution, the second call returns the output of the first, leaves the maze as it
  is and makes no call of the search (so over all the calls the search has run at most once).
\<close>

theorem view_twice:
  "(bfs_solution (snd (view_bfs m)) \<noteq> None \<longrightarrow>
      view_bfs_counted (snd (view_bfs m)) = (fst (view_bfs m), snd (view_bfs m), 0) \<and>
      view_bfs (snd (view_bfs m)) = view_bfs m \<and> snd (snd (view_bfs_counted m)) \<le> 1) \<and>
   (dfs_solution (snd (view_dfs m)) \<noteq> None \<longrightarrow>
      view_dfs_counted (snd (view_dfs m)) = (fst (view_dfs m), snd (view_dfs m), 0) \<and>
      view_dfs (snd (view_dfs m)) = view_dfs m \<and> snd (snd (view_dfs_counted m)) \<le> 1)"
proof -
  have b: "snd (snd (view_bfs_counted m)) \<le> 1"
    by (auto simp: view_bfs_counted_def split: prod.splits sum.splits)
  have d: "snd (snd (view_dfs_counted m)) \<le> 1"
    by (auto simp: view_dfs_counted_def split: prod.splits sum.splits)
  have "view_bfs (snd (view_bfs m)) = view_bfs m" if "bfs_solution (snd (view_bfs m)) \<noteq> None"
    using view_bfs_second [OF that] view_bfs_counted_erase [of "snd (view_bfs m)"] by simp
  moreover have "view_dfs (snd (view_dfs m)) = view_dfs m" if "dfs_solution (snd (view_dfs m)) \<noteq> None"
    using view_dfs_second [OF that] view_dfs_counted_erase [of "snd (view_dfs m)"] by simp
  ultimately show ?thesis using b d view_bfs_second view_dfs_second by blast
qed

theorem view_twice_witness:
  "bfs_solution (snd (view_bfs maze_scenario)) \<noteq> None \<and>
   dfs_solution (snd (view_dfs maze_scenario)) \<noteq> None \<and>
   fst (view_bfs maze_scenario) = Inr (''*  '' @ [newline] @ ''*# '' @ [newline] @ ''***'' @ [newline]) \<and>
   fst (view_dfs maze_scenario) = Inr (''***'' @ [newline] @ '' #*'' @ [newline] @ ''  *'' @ [newline]) \<and>
   view_bfs_counted (snd (view_bfs maze_scenario))
     = (fst (view_bfs maze_scenario), snd (view_bfs maze_scenario), 0) \<and>
   view_dfs_counted (snd (view_dfs maze_scenario))
     = (fst (view_dfs maze_scenario), snd (view_dfs maze_scenario), 0) \<and>
   view_bfs (snd (view_bfs maze_scenario)) = view_bfs maze_scenario \<and>
   view_dfs (snd (view_dfs maze_scenario)) = view_dfs maze_scenario"
proof -
  have b: "bfs_solution (snd (view_bfs maze_scenario)) \<noteq> None" by code_simp
  have d: "dfs_solution (snd (view_dfs maze_scenario)) \<noteq> None" by code_simp
  have ob: "fst (view_bfs maze_scenario)
      = Inr (''*  '' @ [newline] @ ''*# '' @ [newline] @ ''***'' @ [newline])" by code_simp
  have od: "fst (view_dfs maze_scenario)
      = Inr (''***'' @ [newline] @ '' #*'' @ [newline] @ ''  *'' @ [newline])" by code_simp
  show ?thesis using view_twice [of maze_scenario] b d ob od by blast
qed

section \<open>Paths\<close>

definition manhattan :: "point \<Rightarrow> point \<Rightarrow> int" where
  "manhattan p q = \<bar>fst p - fst q\<bar> + \<bar>snd p - snd q\<bar>"

text \<open>
  A route of a search in progress: it starts at \<open>s\<close>, repeats no position, moves by one step
  at a time and stays on cells of the grid that are neither walls nor ends.
\<close>

definition open_route :: "(point \<times> CellType) list \<Rightarrow> point \<Rightarrow> point list \<Rightarrow> bool" where
  "open_route g s route \<longleftrightarrow>
     route \<noteq> [] \<and> hd route = s \<and> distinct route \<and>
     successively (\<lambda>p q. manhattan p q = 1) route \<and> (\<forall>p\<in>set route. passable g p)"

text \<open>
  What the searches return, according to the specification: from the start to an END cell, by
  steps of Manhattan distance 1, over cells of the grid that are not walls, no position twice.
\<close>

definition solution_path :: "(point \<times> CellType) list \<Rightarrow> point \<Rightarrow> point list \<Rightarrow> bool" where
  "solution_path g s path \<longleftrightarrow>
     path \<noteq> [] \<and> hd path = s \<and> map_of g (last path) = Some END \<and>
     successively (\<lambda>p q. manhattan p q = 1) path \<and> distinct path \<and>
     (\<forall>p\<in>set path. map_of g p \<noteq> None \<and> map_of g p \<noteq> Some WALL)"

lemma point_neighbours_manhattan: "q \<in> set (point_neighbours p) \<longleftrightarrow> manhattan p q = 1"
  by (cases p; cases q) (auto simp: manhattan_def)

lemma passable_cases: "passable g p \<longleftrightarrow> map_of g p = Some FREE \<or> map_of g p = Some START"
proof (cases "map_of g p")
  case None
  then show ?thesis by (simp add: passable_def)
next
  case (Some ct)
  then show ?thesis by (cases ct) (simp_all add: passable_def)
qed

lemma open_route_extend:
  assumes "open_route g s route" "nb \<in> set (point_neighbours (last route))"
    "passable g nb" "nb \<notin> set route"
  shows "open_route g s (route @ [nb])"
  using assms
  by (auto simp: open_route_def successively_append_iff point_neighbours_manhattan)

lemma open_route_finish:
  assumes "open_route g s route" "nb \<in> set (point_neighbours (last route))"
    "map_of g nb = Some END"
  shows "solution_path g s (route @ [nb])"
proof -
  have "nb \<notin> set route"
    using assms(1,3) by (auto simp: open_route_def passable_def)
  moreover have "\<forall>p\<in>set route. map_of g p \<noteq> None \<and> map_of g p \<noteq> Some WALL"
    using assms(1) by (auto simp: open_route_def passable_def split: option.splits)
  ultimately show ?thesis
    using assms
    by (auto simp: open_route_def solution_path_def successively_append_iff
        point_neighbours_manhattan)
qed

lemma open_route_butlast:
  "open_route g s route \<Longrightarrow> butlast route \<noteq> [] \<Longrightarrow> open_route g s (butlast route)"
proof -
  assume a: "open_route g s route" "butlast route \<noteq> []"
  then obtain r x where r: "route = r @ [x]" "r \<noteq> []"
    by (metis append_butlast_last_id butlast.simps(1))
  then show ?thesis using a
    by (auto simp: open_route_def successively_append_iff)
qed

lemma bfs_neighbours_Return:
  "bfs_neighbours g route nbs acc = Return sol \<Longrightarrow>
   \<exists>nb\<in>set nbs. map_of g nb = Some END \<and> sol = route @ [nb]"
proof (induction nbs arbitrary: acc)
  case Nil
  then show ?case by simp
next
  case (Cons nb nbs)
  show ?case
  proof (cases "map_of g nb")
    case None
    then show ?thesis using Cons.prems Cons.IH [of acc] by auto
  next
    case (Some ct)
    then show ?thesis
      using Cons.prems Cons.IH [of acc] Cons.IH [of "acc @ [route @ [nb]]"]
      by (auto split: if_split_asm)
  qed
qed

lemma bfs_neighbours_no_Raise: "bfs_neighbours g route nbs acc \<noteq> Raise e"
proof (induction nbs arbitrary: acc)
  case Nil
  then show ?case by simp
next
  case (Cons nb nbs)
  then show ?case by (cases "map_of g nb") auto
qed

text \<open>The routes that one route gives rise to in the next round.\<close>

definition extensions :: "(point \<times> CellType) list \<Rightarrow> point list \<Rightarrow> point list list" where
  "extensions g route =
     map (\<lambda>nb. route @ [nb])
       (filter (\<lambda>nb. passable g nb \<and> nb \<notin> set route) (point_neighbours (last route)))"

lemma bfs_routes_Go:
  "bfs_routes g routes acc = Go new \<Longrightarrow> new = acc @ concat (map (extensions g) routes)"
proof (induction routes arbitrary: acc)
  case Nil
  then show ?case by simp
next
  case (Cons route routes)
  from Cons.prems obtain acc' where
    nb: "bfs_neighbours g route (point_neighbours (last route)) acc = Go acc'" and
    rest: "bfs_routes g routes acc' = Go new"
    by (auto split: if_splits flow.splits)
  have "acc' = acc @ extensions g route"
    using bfs_neighbours_Go [OF nb] by (simp add: extensions_def)
  then show ?case using Cons.IH [OF rest] by simp
qed

lemma bfs_routes_Return:
  "bfs_routes g routes acc = Return sol \<Longrightarrow>
   \<exists>route\<in>set routes. route \<noteq> [] \<and>
     (\<exists>nb\<in>set (point_neighbours (last route)). map_of g nb = Some END \<and> sol = route @ [nb])"
proof (induction routes arbitrary: acc)
  case Nil
  then show ?case by simp
next
  case (Cons route routes)
  have ne: "route \<noteq> []" using Cons.prems by (auto split: if_splits)
  show ?case
  proof (cases "bfs_neighbours g route (point_neighbours (last route)) acc")
    case (Return s)
    then have "s = sol" using Cons.prems ne by simp
    then show ?thesis using bfs_neighbours_Return [OF Return] ne by auto
  next
    case (Raise e)
    then show ?thesis using bfs_neighbours_no_Raise by blast
  next
    case (Go acc')
    then have "bfs_routes g routes acc' = Return sol" using Cons.prems ne by simp
    then show ?thesis using Cons.IH by auto
  qed
qed

lemma extensions_open:
  assumes "open_route g s route" "r \<in> set (extensions g route)"
  shows "open_route g s r"
  using assms by (auto simp: extensions_def intro: open_route_extend)

lemma bfs_loop_solution:
  "\<forall>route\<in>set routes. open_route g s route \<Longrightarrow> bfs_loop g routes = Inr (Some sol) \<Longrightarrow>
   solution_path g s sol"
proof (induction g routes rule: bfs_loop.induct)
  case (1 g routes)
  have ne: "routes \<noteq> []" using "1.prems"(2) by (auto simp: bfs_loop.simps [of g routes])
  show ?case
  proof (cases "bfs_routes g routes []")
    case (Return s')
    then have "s' = sol" using "1.prems"(2) ne by (simp add: bfs_loop.simps [of g routes])
    then show ?thesis
      using bfs_routes_Return [OF Return] "1.prems"(1) by (auto intro: open_route_finish)
  next
    case (Raise e)
    then show ?thesis using "1.prems"(2) ne by (simp add: bfs_loop.simps [of g routes])
  next
    case (Go new)
    then have rec: "bfs_loop g new = Inr (Some sol)"
      using "1.prems"(2) ne by (simp add: bfs_loop.simps [of g routes])
    have "new = concat (map (extensions g) routes)"
      using bfs_routes_Go [OF Go] by simp
    then have "\<forall>route\<in>set new. open_route g s route"
      using "1.prems"(1) by (auto intro: extensions_open)
    then show ?thesis using "1.IH" [OF ne Go _ rec] by simp
  qed
qed

lemma dfs_neighbours_Return:
  "dfs_neighbours g route nbs acc = Return sol \<Longrightarrow>
   \<exists>nb\<in>snd ` set nbs. map_of g nb = Some END \<and> sol = route @ [nb]"
proof (induction nbs arbitrary: acc)
  case Nil
  then show ?case by simp
next
  case (Cons inb nbs)
  obtain idx nb where inb: "inb = (idx, nb)" by (cases inb)
  show ?case
  proof (cases "map_of g nb")
    case None
    then show ?thesis using Cons.prems Cons.IH [of "acc @ [idx]"] inb by auto
  next
    case (Some ct)
    then show ?thesis
      using Cons.prems Cons.IH [of acc] Cons.IH [of "acc @ [idx]"] inb
      by (auto split: if_split_asm)
  qed
qed

lemma dfs_neighbours_no_Raise: "dfs_neighbours g route nbs acc \<noteq> Raise e"
proof (induction nbs arbitrary: acc)
  case Nil
  then show ?case by simp
next
  case (Cons inb nbs)
  obtain idx nb where inb: "inb = (idx, nb)" by (cases inb)
  show ?case using Cons inb by (cases "map_of g nb") auto
qed

lemma dfs_kept:
  assumes "dfs_neighbours g route (List.enumerate 0 nbs) [] = Go ptr"
  shows "fold pop_at (rev ptr) nbs = filter (\<lambda>nb. passable g nb \<and> nb \<notin> set route) nbs"
proof -
  have ptr: "ptr = map fst (filter (\<lambda>(idx, nb). \<not> (passable g nb \<and> nb \<notin> set route))
      (List.enumerate 0 nbs))"
    using dfs_neighbours_Go [OF assms] unfolding append_Nil .
  show ?thesis unfolding ptr by (rule fold_pop_at_removed)
qed

text \<open>
  The frames of the depth-first search, read from the end of the route: the frame of a position
  of the route holds neighbours of the position before it that may replace it.
\<close>

fun frames_ok :: "(point \<times> CellType) list \<Rightarrow> point list \<Rightarrow> point list list \<Rightarrow> bool" where
  "frames_ok g rev_route [] = (length rev_route = 1)"
| "frames_ok g [] (frame # frames) = False"
| "frames_ok g (x # rev_route) (frame # frames) =
     ((\<forall>a\<in>set frame. rev_route \<noteq> [] \<and> a \<in> set (point_neighbours (hd rev_route)) \<and>
          passable g a \<and> a \<notin> set rev_route)
      \<and> frames_ok g rev_route frames)"

lemma frames_ok_nonempty: "frames_ok g rev_route frames \<Longrightarrow> rev_route \<noteq> []"
  by (cases frames) auto

lemma backtrace_ok:
  "backtrace route ps = Inr (route', ps') \<Longrightarrow> open_route g s route \<Longrightarrow>
   frames_ok g (rev route) (rev ps) \<Longrightarrow>
   open_route g s route' \<and> frames_ok g (rev route') (rev ps') \<and> ps' \<noteq> [] \<and> last ps' \<noteq> []"
proof (induction route ps rule: backtrace.induct)
  case (1 route ps)
  show ?case
  proof (cases "ps \<noteq> [] \<and> last ps = []")
    case True
    then have r: "route \<noteq> []" and rec: "backtrace (butlast route) (butlast ps) = Inr (route', ps')"
      using "1.prems"(1) by (auto simp: backtrace.simps [of route ps] split: if_split_asm)
    obtain fs where ps: "ps = fs @ [[]]"
      using True by (metis append_butlast_last_id)
    obtain rs x where route: "route = rs @ [x]"
      using r by (metis append_butlast_last_id)
    have fo: "frames_ok g (rev rs) (rev fs)"
      using "1.prems"(3) by (simp add: ps route)
    then have "rs \<noteq> []" using frames_ok_nonempty by fastforce
    then have "open_route g s rs"
      using open_route_butlast [OF "1.prems"(2)] by (simp add: route)
    then show ?thesis
      using "1.IH" [OF _ _ _ rec] True r fo by (simp add: ps route)
  next
    case False
    then show ?thesis
      using "1.prems" by (auto simp: backtrace.simps [of route ps] split: if_split_asm)
  qed
qed

lemma dfs_loop_solution:
  "open_route g s route \<Longrightarrow> frames_ok g (rev route) (rev ps) \<Longrightarrow>
   dfs_loop g route ps = Inr (Some sol) \<Longrightarrow> solution_path g s sol"
proof (induction g route ps rule: dfs_loop.induct)
  case (1 g route ps)
  have ne: "route \<noteq> []" using "1.prems"(1) by (simp add: open_route_def)
  let ?nbs = "point_neighbours (last route)"
  show ?case
  proof (cases "dfs_neighbours g route (List.enumerate 0 ?nbs) []")
    case (Return s')
    then have "s' = sol"
      using "1.prems"(3) ne by (simp add: dfs_loop.simps [of g route ps])
    moreover obtain nb where "nb \<in> set ?nbs" "map_of g nb = Some END" "s' = route @ [nb]"
      using dfs_neighbours_Return [OF Return]
      by (auto simp: enumerate_eq_zip dest: set_zip_rightD)
    ultimately show ?thesis using open_route_finish "1.prems"(1) by blast
  next
    case (Raise e)
    then show ?thesis using dfs_neighbours_no_Raise by blast
  next
    case (Go ptr)
    define kept where "kept = fold pop_at (rev ptr) ?nbs"
    have kept: "kept = filter (\<lambda>nb. passable g nb \<and> nb \<notin> set route) ?nbs"
      unfolding kept_def by (rule dfs_kept [OF Go])
    show ?thesis
    proof (cases "0 < length kept")
      case True
      have rec: "dfs_loop g (route @ [last kept]) (ps @ [butlast kept]) = Inr (Some sol)"
        using "1.prems"(3) ne Go True
        by (simp add: dfs_loop.simps [of g route ps] kept_def Let_def)
      have "last kept \<in> set kept" using True by simp
      then have lk: "last kept \<in> set ?nbs" "passable g (last kept)" "last kept \<notin> set route"
        using kept by auto
      have orr: "open_route g s (route @ [last kept])"
        using "1.prems"(1) lk by (rule open_route_extend)
      have "\<forall>a\<in>set (butlast kept). a \<in> set ?nbs \<and> passable g a \<and> a \<notin> set route"
        using kept by (auto dest: in_set_butlastD)
      then have fo: "frames_ok g (rev (route @ [last kept])) (rev (ps @ [butlast kept]))"
        using "1.prems"(2) ne by (simp add: hd_rev)
      show ?thesis using "1.IH"(1) [OF ne Go kept_def True orr fo rec] .
    next
      case False
      have res: "dfs_loop g route ps =
          (if 0 < length ps then
             (case backtrace route ps of
                Inl e \<Rightarrow> Inl e
              | Inr (route', ps') \<Rightarrow>
                  if length ps' = 0 then Inr None
                  else if route' = [] then Inl IndexError
                  else dfs_loop g (butlast route' @ [last (last ps')])
                         (butlast ps' @ [butlast (last ps')]))
           else Inr None)"
        using ne Go False by (simp add: dfs_loop.simps [of g route ps] kept_def Let_def)
      have psne: "0 < length ps" using "1.prems"(3) res by (auto split: if_split_asm)
      obtain route' ps' where bt: "backtrace route ps = Inr (route', ps')"
        using "1.prems"(3) res psne by (cases "backtrace route ps") auto
      have ok: "open_route g s route'" "frames_ok g (rev route') (rev ps')" "ps' \<noteq> []"
        "last ps' \<noteq> []"
        using backtrace_ok [OF bt "1.prems"(1,2)] by simp_all
      have r'ne: "route' \<noteq> []" using ok(1) by (simp add: open_route_def)
      have rec: "dfs_loop g (butlast route' @ [last (last ps')])
          (butlast ps' @ [butlast (last ps')]) = Inr (Some sol)"
        using "1.prems"(3) res psne bt ok(3) r'ne by simp
      obtain fs F where ps': "ps' = fs @ [F]"
        using ok(3) by (metis append_butlast_last_id)
      obtain F' a where F: "F = F' @ [a]"
        using ok(4) ps' by (metis append_butlast_last_id last_snoc)
      obtain rs x where route': "route' = rs @ [x]"
        using r'ne by (metis append_butlast_last_id)
      have fr: "\<forall>b\<in>set F. rs \<noteq> [] \<and> b \<in> set (point_neighbours (last rs)) \<and>
          passable g b \<and> b \<notin> set rs" and fo': "frames_ok g (rev rs) (rev fs)"
        using ok(2) by (auto simp: ps' route' hd_rev)
      have rsne: "rs \<noteq> []" using fr F by simp
      have "open_route g s rs"
        using open_route_butlast [OF ok(1)] rsne by (simp add: route')
      moreover have "a \<in> set (point_neighbours (last rs))" "passable g a" "a \<notin> set rs"
        using fr F by simp_all
      ultimately have orr: "open_route g s (rs @ [a])" by (rule open_route_extend)
      have fo: "frames_ok g (rev (rs @ [a])) (rev (fs @ [F']))"
        using fr fo' F by (simp add: hd_rev)
      have "solution_path g s sol"
      proof (rule "1.IH"(2) [OF ne Go kept_def False psne bt refl])
        show "length ps' \<noteq> 0" using ok(3) by simp
        show "route' \<noteq> []" by (rule r'ne)
        show "open_route g s (butlast route' @ [last (last ps')])"
          using orr by (simp add: ps' F route')
        show "frames_ok g (rev (butlast route' @ [last (last ps')]))
            (rev (butlast ps' @ [butlast (last ps')]))"
          using fo by (simp add: ps' F route')
        show "dfs_loop g (butlast route' @ [last (last ps')])
            (butlast ps' @ [butlast (last ps')]) = Inr (Some sol)" by (rule rec)
      qed
      then show ?thesis .
    qed
  qed
qed

section \<open>Well-formed mazes\<close>

text \<open>
  The invariant of the grid in the specification: the dictionary has one entry for each position
  of the rectangle given by \<open>grid_corner\<close> and no other, and exactly one entry is the start, at
  \<open>start_point\<close>.
\<close>

definition wf_maze :: "Maze \<Rightarrow> bool" where
  "wf_maze m \<longleftrightarrow>
     distinct (map fst (grid m)) \<and>
     set (map fst (grid m))
       = set (List.product (py_range (fst (grid_corner m))) (py_range (snd (grid_corner m)))) \<and>
     map fst (filter (\<lambda>(p, ct). ct = START) (grid m)) = [start_point m]"

lemma wf_maze_start:
  assumes "wf_maze m"
  shows "map_of (grid m) (start_point m) = Some START"
proof -
  have "start_point m \<in> set (map fst (filter (\<lambda>(p, ct). ct = START) (grid m)))"
    using assms by (simp add: wf_maze_def)
  then have "(start_point m, START) \<in> set (grid m)" by auto
  moreover have "distinct (map fst (grid m))" using assms by (simp add: wf_maze_def)
  ultimately show ?thesis by simp
qed

lemma open_route_start: "map_of g s = Some START \<Longrightarrow> open_route g s [s]"
  by (simp add: open_route_def passable_def)

lemma wf_examples: "wf_maze maze_scenario" "wf_maze maze_dead_end" "wf_maze maze_open_square"
  by code_simp+

section \<open>The returned paths\<close>

text \<open>
  Claim C2: on a well-formed maze, a path returned by the breadth-first search or by the
  depth-first search starts at \<open>start_point\<close>, ends on a cell of kind END, moves by Manhattan
  distance 1 between consecutive positions and visits no position twice. (It also stays on cells
  of the grid that are not walls.)
\<close>

theorem returned_path_valid:
  assumes "wf_maze m"
    and "fst (breadth_first_search m) = Inr (Some path) \<or>
         fst (depth_first_search m) = Inr (Some path)"
  shows "path \<noteq> [] \<and> hd path = start_point m \<and> map_of (grid m) (last path) = Some END \<and>
         successively (\<lambda>p q. manhattan p q = 1) path \<and> distinct path \<and>
         (\<forall>p\<in>set path. map_of (grid m) p \<noteq> None \<and> map_of (grid m) p \<noteq> Some WALL)"
proof -
  have start: "open_route (grid m) (start_point m) [start_point m]"
    using wf_maze_start [OF assms(1)] by (rule open_route_start)
  have "solution_path (grid m) (start_point m) path"
    using assms(2)
  proof
    assume "fst (breadth_first_search m) = Inr (Some path)"
    then have "bfs_loop (grid m) [[start_point m]] = Inr (Some path)"
      by (auto simp: breadth_first_search_def split: sum.splits option.splits)
    then show ?thesis using bfs_loop_solution [of "[[start_point m]]"] start by simp
  next
    assume "fst (depth_first_search m) = Inr (Some path)"
    then have "dfs_loop (grid m) [start_point m] [] = Inr (Some path)"
      by (auto simp: depth_first_search_def split: sum.splits option.splits)
    then show ?thesis using dfs_loop_solution [of "grid m" "start_point m" "[start_point m]" "[]"] start
      by simp
  qed
  then show ?thesis by (simp add: solution_path_def)
qed

theorem returned_path_valid_witness:
  "wf_maze maze_scenario \<and>
   fst (breadth_first_search maze_scenario) = Inr (Some [(0, 0), (1, 0), (2, 0), (2, 1), (2, 2)]) \<and>
   fst (depth_first_search maze_scenario) = Inr (Some [(0, 0), (0, 1), (0, 2), (1, 2), (2, 2)]) \<and>
   hd [(0, 0), (1, 0), (2, 0), (2, 1), (2, 2)] = start_point maze_scenario \<and>
   map_of (grid maze_scenario) (last [(0, 0), (1, 0), (2, 0), (2, 1), (2, 2)]) = Some END \<and>
   successively (\<lambda>p q. manhattan p q = 1) [(0, 0), (1, 0), (2, 0), (2, 1), (2, 2)] \<and>
   distinct [(0, 0), (1, 0), (2, 0), (2, 1), (2, 2) :: point] \<and>
   hd [(0, 0), (0, 1), (0, 2), (1, 2), (2, 2)] = start_point maze_scenario \<and>
   map_of (grid maze_scenario) (last [(0, 0), (0, 1), (0, 2), (1, 2), (2, 2)]) = Some END \<and>
   successively (\<lambda>p q. manhattan p q = 1) [(0, 0), (0, 1), (0, 2), (1, 2), (2, 2)] \<and>
   distinct [(0, 0), (0, 1), (0, 2), (1, 2), (2, 2) :: point]"
proof -
  have wf: "wf_maze maze_scenario" by code_simp
  have b: "fst (breadth_first_search maze_scenario)
      = Inr (Some [(0, 0), (1, 0), (2, 0), (2, 1), (2, 2)])" by code_simp
  have d: "fst (depth_first_search maze_scenario)
      = Inr (Some [(0, 0), (0, 1), (0, 2), (1, 2), (2, 2)])" by code_simp
  show ?thesis
    using wf b d
      returned_path_valid [OF wf disjI1 [OF b]] returned_path_valid [OF wf disjI2 [OF d]]
    by blast
qed

section \<open>The breadth-first search finds a shortest path\<close>

text \<open>
  A path in the sense of the claim: from the start to an END cell, by steps of Manhattan distance
  1, over cells of the grid that are not walls. Positions may repeat, and END cells may occur
  before the last position; the shortest such paths do neither.
\<close>

definition maze_path :: "Maze \<Rightarrow> point list \<Rightarrow> bool" where
  "maze_path m path \<longleftrightarrow>
     path \<noteq> [] \<and> hd path = start_point m \<and> map_of (grid m) (last path) = Some END \<and>
     successively (\<lambda>p q. manhattan p q = 1) path \<and>
     (\<forall>p\<in>set path. map_of (grid m) p \<noteq> None \<and> map_of (grid m) p \<noteq> Some WALL)"

text \<open>The cells that \<open>n\<close> steps over passable cells lead to from the start.\<close>

fun reach :: "(point \<times> CellType) list \<Rightarrow> point \<Rightarrow> nat \<Rightarrow> point set" where
  "reach g s 0 = {s}"
| "reach g s (Suc n) = {q. \<exists>p\<in>reach g s n. manhattan p q = 1 \<and> passable g q}"

text \<open>A cell is fresh at \<open>n\<close> when \<open>n\<close> steps reach it and fewer do not.\<close>

definition fresh :: "(point \<times> CellType) list \<Rightarrow> point \<Rightarrow> nat \<Rightarrow> point \<Rightarrow> bool" where
  "fresh g s n c \<longleftrightarrow> c \<in> reach g s n \<and> (\<forall>j<n. c \<notin> reach g s j)"

lemma walk_reach:
  assumes "hd r = s" "successively (\<lambda>p q. manhattan p q = 1) r" "\<forall>p\<in>set r. passable g p"
  shows "i < length r \<Longrightarrow> r ! i \<in> reach g s i"
proof (induction i)
  case 0
  then show ?case using assms(1) by (cases r) auto
next
  case (Suc i)
  have "r ! i \<in> reach g s i" using Suc by simp
  moreover have "manhattan (r ! i) (r ! Suc i) = 1"
    using successively_nth [OF assms(2) Suc.prems] .
  moreover have "passable g (r ! Suc i)" using assms(3) Suc.prems by simp
  ultimately show ?case by auto
qed

lemma fresh_pred:
  assumes "fresh g s (Suc n) c"
  shows "\<exists>p. fresh g s n p \<and> manhattan p c = 1 \<and> passable g c"
proof -
  obtain p where p: "p \<in> reach g s n" "manhattan p c = 1" "passable g c"
    using assms by (auto simp: fresh_def)
  have "p \<notin> reach g s j" if "j < n" for j
  proof
    assume "p \<in> reach g s j"
    then have "c \<in> reach g s (Suc j)" using p by auto
    then show False using assms that by (auto simp: fresh_def)
  qed
  then show ?thesis using p unfolding fresh_def by blast
qed

lemma fresh_below: "fresh g s n c \<Longrightarrow> k \<le> n \<Longrightarrow> \<exists>p. fresh g s k p"
proof (induction n arbitrary: c)
  case 0
  then show ?case by blast
next
  case (Suc n)
  show ?case
  proof (cases "k = Suc n")
    case True
    then show ?thesis using Suc.prems by blast
  next
    case False
    then have "k \<le> n" using Suc.prems by simp
    then show ?thesis using fresh_pred [OF Suc.prems(1)] Suc.IH by blast
  qed
qed

text \<open>The routes of round \<open>n\<close>: every fresh cell is the end of one of them.\<close>

definition round_ok :: "(point \<times> CellType) list \<Rightarrow> point \<Rightarrow> nat \<Rightarrow> point list list \<Rightarrow> bool" where
  "round_ok g s n routes \<longleftrightarrow>
     (\<forall>r\<in>set routes. length r = Suc n \<and> open_route g s r) \<and>
     (\<forall>c. fresh g s n c \<longrightarrow> (\<exists>r\<in>set routes. last r = c))"

lemma round_ok_step:
  assumes "round_ok g s n routes"
  shows "round_ok g s (Suc n) (concat (map (extensions g) routes))"
proof -
  have a: "length r' = Suc (Suc n) \<and> open_route g s r'"
    if "r' \<in> set (concat (map (extensions g) routes))" for r'
  proof -
    have "\<exists>r\<in>set routes. r' \<in> set (extensions g r)" using that by simp
    then obtain r where r: "r \<in> set routes" "r' \<in> set (extensions g r)" by blast
    then have "open_route g s r'" using assms extensions_open unfolding round_ok_def by blast
    moreover have "length r' = Suc (length r)" using r(2) by (auto simp: extensions_def)
    ultimately show ?thesis using assms r(1) by (simp add: round_ok_def)
  qed
  have b: "\<exists>r'\<in>set (concat (map (extensions g) routes)). last r' = c"
    if c: "fresh g s (Suc n) c" for c
  proof -
    obtain p where p: "fresh g s n p" "manhattan p c = 1" "passable g c"
      using fresh_pred [OF c] by blast
    obtain r where r: "r \<in> set routes" "last r = p" "length r = Suc n" "open_route g s r"
      using assms p(1) unfolding round_ok_def by blast
    have "c \<notin> set r"
    proof
      assume "c \<in> set r"
      then obtain i where i: "i < length r" "r ! i = c" by (auto simp: in_set_conv_nth)
      have "r ! i \<in> reach g s i"
        using r(4) i(1) by (intro walk_reach) (auto simp: open_route_def)
      then show False using c i r(3) unfolding fresh_def by simp
    qed
    then have "r @ [c] \<in> set (extensions g r)"
      using p r(2) by (auto simp: extensions_def point_neighbours_manhattan)
    then show ?thesis using r(1) by force
  qed
  show ?thesis unfolding round_ok_def using a b by blast
qed

lemma bfs_neighbours_END:
  "nb \<in> set nbs \<Longrightarrow> map_of g nb = Some END \<Longrightarrow> \<exists>sol. bfs_neighbours g route nbs acc = Return sol"
proof (induction nbs arbitrary: acc)
  case Nil
  then show ?case by simp
next
  case (Cons x nbs)
  show ?case
  proof (cases "x = nb")
    case True
    then show ?thesis using Cons.prems by simp
  next
    case False
    then have "nb \<in> set nbs" using Cons.prems by simp
    then have "\<exists>sol. bfs_neighbours g route nbs acc' = Return sol" for acc'
      using Cons.IH Cons.prems(2) by blast
    then show ?thesis by (cases "map_of g x") auto
  qed
qed

lemma bfs_routes_END:
  assumes "\<forall>r\<in>set routes. r \<noteq> []"
    and "\<exists>r\<in>set routes. \<exists>nb\<in>set (point_neighbours (last r)). map_of g nb = Some END"
  shows "\<exists>sol. bfs_routes g routes acc = Return sol"
  using assms
proof (induction routes arbitrary: acc)
  case Nil
  then show ?case by simp
next
  case (Cons route routes)
  have ne: "route \<noteq> []" using Cons.prems(1) by simp
  show ?case
  proof (cases "bfs_neighbours g route (point_neighbours (last route)) acc")
    case (Return sol)
    then show ?thesis using ne by simp
  next
    case (Raise e)
    then show ?thesis using bfs_neighbours_no_Raise by blast
  next
    case (Go acc')
    have "\<not> (\<exists>nb\<in>set (point_neighbours (last route)). map_of g nb = Some END)"
      using bfs_neighbours_END [of _ "point_neighbours (last route)" g route acc] Go by auto
    then have "\<exists>r\<in>set routes. \<exists>nb\<in>set (point_neighbours (last r)). map_of g nb = Some END"
      using Cons.prems(2) by auto
    then have "\<exists>sol. bfs_routes g routes acc' = Return sol"
      using Cons.IH Cons.prems(1) by simp
    then show ?thesis using Go ne by simp
  qed
qed

lemma bfs_routes_no_Raise:
  "\<forall>r\<in>set routes. r \<noteq> [] \<Longrightarrow> bfs_routes g routes acc \<noteq> Raise e"
proof (induction routes arbitrary: acc)
  case Nil
  then show ?case by simp
next
  case (Cons route routes)
  then show ?case
    using bfs_neighbours_no_Raise [of g route "point_neighbours (last route)" acc]
    by (cases "bfs_neighbours g route (point_neighbours (last route)) acc") auto
qed

lemma bfs_loop_finds:
  assumes "fresh g s N b" "manhattan b e = 1" "map_of g e = Some END"
  shows "round_ok g s n routes \<Longrightarrow> n \<le> N \<Longrightarrow>
         \<exists>sol. bfs_loop g routes = Inr (Some sol) \<and> length sol \<le> N + 2"
proof (induction "N - n" arbitrary: n routes)
  case 0
  then have n: "n = N" by simp
  obtain r where r: "r \<in> set routes" "last r = b"
    using "0.prems"(1) assms(1) n unfolding round_ok_def by blast
  have all: "\<forall>r\<in>set routes. r \<noteq> [] \<and> length r = Suc n"
    using "0.prems"(1) unfolding round_ok_def by auto
  have "e \<in> set (point_neighbours (last r))"
    using assms(2) r(2) by (simp add: point_neighbours_manhattan)
  then obtain sol where sol: "bfs_routes g routes [] = Return sol"
    using bfs_routes_END [of routes g "[]"] all r(1) assms(3) by blast
  have "length sol = n + 2"
    using bfs_routes_Return [OF sol] all by auto
  moreover have "bfs_loop g routes = Inr (Some sol)"
    using sol r(1) by (auto simp: bfs_loop.simps [of g routes])
  ultimately show ?case using n by simp
next
  case (Suc d)
  have all: "\<forall>r\<in>set routes. r \<noteq> [] \<and> length r = Suc n"
    using Suc.prems(1) unfolding round_ok_def by auto
  obtain p where "fresh g s n p" using fresh_below [OF assms(1) Suc.prems(2)] by blast
  then have "\<exists>r\<in>set routes. last r = p" using Suc.prems(1) unfolding round_ok_def by blast
  then have ne: "routes \<noteq> []" by auto
  show ?case
  proof (cases "bfs_routes g routes []")
    case (Return sol)
    have "length sol = n + 2"
      using bfs_routes_Return [OF Return] all by auto
    moreover have "bfs_loop g routes = Inr (Some sol)"
      using Return ne by (simp add: bfs_loop.simps [of g routes])
    ultimately show ?thesis using Suc.prems(2) by simp
  next
    case (Raise e)
    then show ?thesis using bfs_routes_no_Raise all by blast
  next
    case (Go new)
    have new: "new = concat (map (extensions g) routes)"
      using bfs_routes_Go [OF Go] by simp
    have "round_ok g s (Suc n) new"
      unfolding new using Suc.prems(1) by (rule round_ok_step)
    moreover have "d = N - Suc n" "Suc n \<le> N" using Suc.hyps(2) by simp_all
    ultimately have "\<exists>sol. bfs_loop g new = Inr (Some sol) \<and> length sol \<le> N + 2"
      using Suc.hyps(1) by blast
    moreover have "bfs_loop g routes = bfs_loop g new"
      using Go ne by (simp add: bfs_loop.simps [of g routes])
    ultimately show ?thesis by simp
  qed
qed


lemma maze_path_reaches_end:
  assumes "maze_path m path" "map_of (grid m) (start_point m) = Some START"
  shows "\<exists>n b e. b \<in> reach (grid m) (start_point m) n \<and> manhattan b e = 1 \<and>
           map_of (grid m) e = Some END \<and> n + 2 \<le> length path"
proof -
  let ?g = "grid m" and ?s = "start_point m"
  let ?P = "\<lambda>c. map_of ?g c \<noteq> Some END"
  define pre where "pre = takeWhile ?P path"
  define rest where "rest = dropWhile ?P path"
  have path: "path = pre @ rest" by (simp add: pre_def rest_def)
  have ne: "path \<noteq> []" and hd: "hd path = ?s" and last: "map_of ?g (last path) = Some END"
    and succ: "successively (\<lambda>p q. manhattan p q = 1) path"
    and cells: "\<forall>p\<in>set path. map_of ?g p \<noteq> None \<and> map_of ?g p \<noteq> Some WALL"
    using assms(1) by (simp_all add: maze_path_def)
  have "last path \<in> set path" using ne by simp
  then have rest_ne: "rest \<noteq> []" using last by (auto simp: rest_def)
  then have e: "map_of ?g (hd rest) = Some END"
    using hd_dropWhile [of ?P path] by (simp add: rest_def)
  have pre_ne: "pre \<noteq> []"
    using ne hd assms(2) by (cases path) (auto simp: pre_def)
  have hd_pre: "hd pre = ?s" using path pre_ne hd by (metis hd_append2)
  have "\<forall>p\<in>set pre. ?P p" by (auto simp: pre_def dest: set_takeWhileD)
  moreover have "\<forall>p\<in>set pre. map_of ?g p \<noteq> None \<and> map_of ?g p \<noteq> Some WALL"
    using cells path by auto
  ultimately have pass: "\<forall>p\<in>set pre. passable ?g p"
    by (auto simp: passable_def split: option.splits)
  have succ_pre: "successively (\<lambda>p q. manhattan p q = 1) pre"
    and adj: "manhattan (last pre) (hd rest) = 1"
    using succ pre_ne rest_ne unfolding path by (auto simp: successively_append_iff)
  have "pre ! (length pre - 1) \<in> reach ?g ?s (length pre - 1)"
    using hd_pre succ_pre pass by (rule walk_reach) (use pre_ne in simp)
  then have "last pre \<in> reach ?g ?s (length pre - 1)"
    using pre_ne by (simp add: last_conv_nth)
  moreover have "(length pre - 1) + 2 \<le> length path"
    using pre_ne rest_ne unfolding path by (cases pre; cases rest) simp_all
  ultimately show ?thesis using adj e by blast
qed

lemma bfs_loop_shortest:
  assumes "maze_path m path" "map_of (grid m) (start_point m) = Some START"
  shows "\<exists>sol. bfs_loop (grid m) [[start_point m]] = Inr (Some sol) \<and> length sol \<le> length path"
proof -
  let ?g = "grid m" and ?s = "start_point m"
  let ?A = "\<lambda>n. \<exists>b e. b \<in> reach ?g ?s n \<and> manhattan b e = 1 \<and> map_of ?g e = Some END"
  obtain n0 where n0: "?A n0" "n0 + 2 \<le> length path"
    using maze_path_reaches_end [OF assms] by blast
  define N where "N = (LEAST n. ?A n)"
  have AN: "?A N" unfolding N_def using n0(1) by (rule LeastI)
  have le: "N \<le> n0" unfolding N_def using n0(1) by (rule Least_le)
  have least: "\<not> ?A j" if "j < N" for j
    using that not_less_Least unfolding N_def by blast
  obtain b e where b: "b \<in> reach ?g ?s N" "manhattan b e = 1" "map_of ?g e = Some END"
    using AN by blast
  have "b \<notin> reach ?g ?s j" if "j < N" for j
    using least [OF that] b(2,3) by blast
  then have fresh: "fresh ?g ?s N b" using b(1) by (simp add: fresh_def)
  have "round_ok ?g ?s 0 [[?s]]"
    using open_route_start [OF assms(2)] by (simp add: round_ok_def fresh_def)
  then obtain sol where "bfs_loop ?g [[?s]] = Inr (Some sol)" "length sol \<le> N + 2"
    using bfs_loop_finds [OF fresh b(2,3), of 0 "[[?s]]"] by auto
  then show ?thesis using le n0(2) by auto
qed

lemma solution_path_maze_path:
  "solution_path (grid m) (start_point m) path \<Longrightarrow> maze_path m path"
  by (simp add: solution_path_def maze_path_def)

text \<open>
  Claim C1: on a well-formed maze in which some valid path leads from the start to an END cell,
  the breadth-first search returns a path, this path is itself valid, no valid path is shorter,
  and no path that the depth-first search returns on the same maze is shorter.
\<close>

theorem bfs_shortest:
  assumes "wf_maze m" and "\<exists>path. maze_path m path"
  shows "\<exists>sol. fst (breadth_first_search m) = Inr (Some sol) \<and> maze_path m sol \<and>
           (\<forall>path. maze_path m path \<longrightarrow> length sol \<le> length path) \<and>
           (\<forall>d. fst (depth_first_search m) = Inr (Some d) \<longrightarrow> length sol \<le> length d)"
proof -
  have start: "map_of (grid m) (start_point m) = Some START"
    using assms(1) by (rule wf_maze_start)
  have orr: "open_route (grid m) (start_point m) [start_point m]"
    using start by (rule open_route_start)
  obtain p0 where p0: "maze_path m p0" using assms(2) by blast
  obtain sol where sol: "bfs_loop (grid m) [[start_point m]] = Inr (Some sol)"
    using bfs_loop_shortest [OF p0 start] by blast
  have res: "fst (breadth_first_search m) = Inr (Some sol)"
    using sol by (simp add: breadth_first_search_def)
  have valid: "maze_path m sol"
    using bfs_loop_solution [of "[[start_point m]]" "grid m" "start_point m" sol] orr sol
    by (simp add: solution_path_maze_path)
  have short: "length sol \<le> length path" if "maze_path m path" for path
    using bfs_loop_shortest [OF that start] sol by simp
  have "length sol \<le> length d" if "fst (depth_first_search m) = Inr (Some d)" for d
  proof -
    have "dfs_loop (grid m) [start_point m] [] = Inr (Some d)"
      using that by (auto simp: depth_first_search_def split: sum.splits option.splits)
    then have "solution_path (grid m) (start_point m) d"
      using dfs_loop_solution [of "grid m" "start_point m" "[start_point m]" "[]" d] orr by simp
    then show ?thesis using short solution_path_maze_path by blast
  qed
  then show ?thesis using res valid short by blast
qed

theorem bfs_shortest_witness:
  "wf_maze maze_scenario \<and>
   maze_path maze_scenario [(0, 0), (0, 1), (0, 2), (1, 2), (2, 2)] \<and>
   fst (breadth_first_search maze_scenario) = Inr (Some [(0, 0), (1, 0), (2, 0), (2, 1), (2, 2)]) \<and>
   fst (depth_first_search maze_scenario) = Inr (Some [(0, 0), (0, 1), (0, 2), (1, 2), (2, 2)]) \<and>
   maze_path maze_scenario [(0, 0), (1, 0), (2, 0), (2, 1), (2, 2)] \<and>
   length [(0, 0), (1, 0), (2, 0), (2, 1), (2, 2) :: point]
     \<le> length [(0, 0), (0, 1), (0, 2), (1, 2), (2, 2) :: point]"
proof -
  have wf: "wf_maze maze_scenario" by code_simp
  have p: "maze_path maze_scenario [(0, 0), (0, 1), (0, 2), (1, 2), (2, 2)]" by code_simp
  have b: "fst (breadth_first_search maze_scenario)
      = Inr (Some [(0, 0), (1, 0), (2, 0), (2, 1), (2, 2)])" by code_simp
  have d: "fst (depth_first_search maze_scenario)
      = Inr (Some [(0, 0), (0, 1), (0, 2), (1, 2), (2, 2)])" by code_simp
  have ex: "\<exists>path. maze_path maze_scenario path" using p by blast
  obtain sol where sol: "fst (breadth_first_search maze_scenario) = Inr (Some sol)"
    "maze_path maze_scenario sol"
    "\<forall>d. fst (depth_first_search maze_scenario) = Inr (Some d) \<longrightarrow> length sol \<le> length d"
    using bfs_shortest [OF wf ex] by blast
  have "sol = [(0, 0), (1, 0), (2, 0), (2, 1), (2, 2)]" using sol(1) b by simp
  then show ?thesis using wf p b d sol by simp
qed

section \<open>What the constructor stores\<close>

lemma chars_to_ct_value: "chars_to_ct ch = Some ct \<Longrightarrow> CellType_value ct = ch"
  by (auto simp: chars_to_ct_def split: if_split_asm)

lemma init_line_map_of:
  "init_line li ci cs (g, sp) = Inr (g', sp') \<Longrightarrow>
   map_of g' (r, c) =
     (if r = li \<and> ci \<le> c \<and> c < ci + int (length cs) then chars_to_ct (cs ! nat (c - ci))
      else map_of g (r, c))"
proof (induction cs arbitrary: ci g sp)
  case Nil
  then show ?case by auto
next
  case (Cons ch cs)
  obtain ct where ct: "chars_to_ct ch = Some ct"
    using Cons.prems by (cases "chars_to_ct ch") auto
  let ?g1 = "AList.update (li, ci) ct g"
  obtain sp1 where rec: "init_line li (ci + 1) cs (?g1, sp1) = Inr (g', sp')"
    using Cons.prems ct by (auto split: if_split_asm)
  have IH: "map_of g' (r, c) =
     (if r = li \<and> ci + 1 \<le> c \<and> c < ci + 1 + int (length cs)
      then chars_to_ct (cs ! nat (c - (ci + 1))) else map_of ?g1 (r, c))"
    using Cons.IH [OF rec] .
  show ?case
  proof (cases "r = li \<and> c = ci")
    case True
    then show ?thesis using IH ct by (simp add: update_conv')
  next
    case False
    show ?thesis
    proof (cases "r = li \<and> ci + 1 \<le> c \<and> c < ci + 1 + int (length cs)")
      case True
      then have "nat (c - ci) = Suc (nat (c - (ci + 1)))" by linarith
      then show ?thesis using IH True by simp
    next
      case False2: False
      then show ?thesis using IH False by (auto simp: update_conv')
    qed
  qed
qed

lemma init_line_valid:
  "init_line li ci cs (g, sp) = Inr (g', sp') \<Longrightarrow> \<forall>ch\<in>set cs. chars_to_ct ch \<noteq> None"
proof (induction cs arbitrary: ci g sp)
  case Nil
  then show ?case by simp
next
  case (Cons ch cs)
  obtain ct where ct: "chars_to_ct ch = Some ct"
    using Cons.prems by (cases "chars_to_ct ch") auto
  obtain sp1 where "init_line li (ci + 1) cs (AList.update (li, ci) ct g, sp1) = Inr (g', sp')"
    using Cons.prems ct by (auto split: if_split_asm)
  then show ?case using Cons.IH ct by auto
qed

lemma init_lines_map_of:
  "init_lines li rows (g, sp) = Inr (g', sp') \<Longrightarrow>
   map_of g' (r, c) =
     (if li \<le> r \<and> r < li + int (length rows) \<and> 0 \<le> c \<and> c < int (length (rows ! nat (r - li)))
      then chars_to_ct (rows ! nat (r - li) ! nat c) else map_of g (r, c))"
proof (induction rows arbitrary: li g sp)
  case Nil
  then show ?case by auto
next
  case (Cons l ls)
  obtain g1 sp1 where first: "init_line li 0 l (g, sp) = Inr (g1, sp1)"
    and rec: "init_lines (li + 1) ls (g1, sp1) = Inr (g', sp')"
    using Cons.prems by (auto split: sum.splits)
  have IH: "map_of g' (r, c) =
     (if li + 1 \<le> r \<and> r < li + 1 + int (length ls) \<and> 0 \<le> c
         \<and> c < int (length (ls ! nat (r - (li + 1))))
      then chars_to_ct (ls ! nat (r - (li + 1)) ! nat c) else map_of g1 (r, c))"
    using Cons.IH [OF rec] .
  have L: "map_of g1 (r, c) =
     (if r = li \<and> 0 \<le> c \<and> c < int (length l) then chars_to_ct (l ! nat c) else map_of g (r, c))"
    using init_line_map_of [OF first, of r c] by simp
  show ?case
  proof (cases "r = li")
    case True
    then show ?thesis using IH L by simp
  next
    case False
    show ?thesis
    proof (cases "li + 1 \<le> r \<and> r < li + 1 + int (length ls)")
      case True
      then have "nat (r - li) = Suc (nat (r - (li + 1)))" by linarith
      then show ?thesis using IH L True False by simp
    next
      case False2: False
      then show ?thesis using IH L False by auto
    qed
  qed
qed

lemma init_lines_valid:
  "init_lines li rows (g, sp) = Inr (g', sp') \<Longrightarrow>
   \<forall>row\<in>set rows. \<forall>ch\<in>set row. chars_to_ct ch \<noteq> None"
proof (induction rows arbitrary: li g sp)
  case Nil
  then show ?case by simp
next
  case (Cons l ls)
  obtain g1 sp1 where first: "init_line li 0 l (g, sp) = Inr (g1, sp1)"
    and rec: "init_lines (li + 1) ls (g1, sp1) = Inr (g', sp')"
    using Cons.prems by (auto split: sum.splits)
  show ?case using init_line_valid [OF first] Cons.IH [OF rec] by simp
qed

text \<open>The character that the base rendering writes for a position of the grid.\<close>

definition cell_char :: "(point \<times> CellType) list \<Rightarrow> int \<Rightarrow> int \<Rightarrow> char" where
  "cell_char g r c = CellType_value (the (map_of g (r, c)))"

text \<open>A block of characters: one line per row index, each closed by a newline.\<close>

definition block :: "(int \<Rightarrow> int \<Rightarrow> char) \<Rightarrow> int list \<Rightarrow> int list \<Rightarrow> string" where
  "block f rows cols = concat (map (\<lambda>r. map (f r) cols @ [newline]) rows)"

lemma str_cols_block:
  "\<forall>c\<in>set cols. map_of g (r, c) \<noteq> None \<Longrightarrow>
   str_cols g r cols out = Inr (out @ map (cell_char g r) cols)"
  by (induction cols arbitrary: out) (auto simp: cell_char_def)

lemma str_rows_block:
  "\<forall>r\<in>set rows. \<forall>c\<in>set cols. map_of g (r, c) \<noteq> None \<Longrightarrow>
   str_rows g rows cols out = Inr (out @ block (cell_char g) rows cols)"
  by (induction rows arbitrary: out) (auto simp: block_def str_cols_block)

lemma Maze_init_Inr:
  assumes "Maze_init text = Inr m"
  shows "raw_maze text \<noteq> []"
    and "\<forall>row\<in>set (raw_maze text). length row = length (hd (raw_maze text))"
    and "\<exists>sp. init_lines 0 (raw_maze text) ([], None) = Inr (grid m, Some sp) \<and> start_point m = sp"
    and "grid_corner m = (int (length (raw_maze text)), int (length (hd (raw_maze text))))"
    and "bfs_solution m = None" and "dfs_solution m = None"
proof -
  let ?rows = "raw_maze text"
  let ?same = "list_all (\<lambda>line. length line = length (hd ?rows)) ?rows"
  have same: "?same"
  proof (rule ccontr)
    assume "\<not> ?same"
    then have "Maze_init text = Inl AssertionError" by (simp add: Maze_init_def Let_def)
    then show False using assms by simp
  qed
  then show "\<forall>row\<in>set ?rows. length row = length (hd ?rows)" by (simp add: list_all_iff)
  show ne: "?rows \<noteq> []"
  proof
    assume "?rows = []"
    then have "Maze_init text = Inl IndexError" by (simp add: Maze_init_def Let_def)
    then show False using assms by simp
  qed
  have eq: "Maze_init text =
     (case init_lines 0 ?rows ([], None) of
        Inl e \<Rightarrow> Inl e
      | Inr (g, None) \<Rightarrow> Inl NoStartError
      | Inr (g, Some sp) \<Rightarrow>
          Inr \<lparr>grid = g, grid_corner = (int (length ?rows), int (length (hd ?rows))),
               start_point = sp, bfs_solution = None, dfs_solution = None\<rparr>)"
    using same ne by (simp add: Maze_init_def Let_def)
  obtain g sp where st: "init_lines 0 ?rows ([], None) = Inr (g, Some sp)"
    and m: "m = \<lparr>grid = g, grid_corner = (int (length ?rows), int (length (hd ?rows))),
               start_point = sp, bfs_solution = None, dfs_solution = None\<rparr>"
  proof (cases "init_lines 0 ?rows ([], None)")
    case (Inl e)
    then show ?thesis using assms eq by simp
  next
    case (Inr st)
    obtain g spo where "st = (g, spo)" by (cases st)
    then show ?thesis using Inr assms eq that by (cases spo) simp_all
  qed
  show "\<exists>sp. init_lines 0 ?rows ([], None) = Inr (grid m, Some sp) \<and> start_point m = sp"
    using st m by simp
  show "grid_corner m = (int (length ?rows), int (length (hd ?rows)))" using m by simp
  show "bfs_solution m = None" "dfs_solution m = None" using m by simp_all
qed

text \<open>
  Claim C7: for a maze text from which a maze is constructed, the base rendering of the maze is
  the text without its comment lines (and its empty lines): each remaining row, character for
  character and in order, each followed by a newline.
\<close>

theorem render_roundtrip:
  assumes "Maze_init text = Inr m"
  shows "Maze_str m = Inr (concat (map (\<lambda>row. row @ [newline]) (raw_maze text)))"
proof -
  let ?rows = "raw_maze text"
  let ?w = "length (hd ?rows)"
  obtain sp where st: "init_lines 0 ?rows ([], None) = Inr (grid m, Some sp)"
    using Maze_init_Inr(3) [OF assms] by blast
  have len: "\<forall>row\<in>set ?rows. length row = ?w" using Maze_init_Inr(2) [OF assms] .
  have corner: "grid_corner m = (int (length ?rows), int ?w)" using Maze_init_Inr(4) [OF assms] .
  have cell: "map_of (grid m) (int i, int j) = chars_to_ct (?rows ! i ! j)"
    if "i < length ?rows" "j < ?w" for i j
  proof -
    have "length (?rows ! i) = ?w" using len that(1) by simp
    then show ?thesis using init_lines_map_of [OF st, of "int i" "int j"] that by simp
  qed
  have valid: "chars_to_ct (?rows ! i ! j) \<noteq> None" if "i < length ?rows" "j < ?w" for i j
  proof -
    have "?rows ! i \<in> set ?rows" using that(1) by simp
    moreover have "?rows ! i ! j \<in> set (?rows ! i)" using len that by simp
    ultimately show ?thesis using init_lines_valid [OF st] by blast
  qed
  have char: "cell_char (grid m) (int i) (int j) = ?rows ! i ! j"
    if "i < length ?rows" "j < ?w" for i j
    using cell [OF that] valid [OF that] chars_to_ct_value [of "?rows ! i ! j"]
    by (auto simp: cell_char_def)
  have "\<forall>r\<in>set (py_range (int (length ?rows))). \<forall>c\<in>set (py_range (int ?w)).
      map_of (grid m) (r, c) \<noteq> None"
    using cell valid by (auto simp: py_range_def)
  then have "Maze_str m = Inr (block (cell_char (grid m)) (py_range (int (length ?rows)))
      (py_range (int ?w)))"
    using str_rows_block [of _ _ "grid m" "[]"] by (simp add: Maze_str_def corner)
  moreover have "block (cell_char (grid m)) (py_range (int (length ?rows))) (py_range (int ?w))
      = concat (map (\<lambda>row. row @ [newline]) ?rows)"
  proof -
    have row: "map (cell_char (grid m) (int i)) (py_range (int ?w)) = ?rows ! i"
      if "i < length ?rows" for i
    proof -
      have "map (cell_char (grid m) (int i)) (py_range (int ?w)) = map (\<lambda>j. ?rows ! i ! j) [0..<?w]"
        using char [OF that] by (simp add: py_range_def)
      also have "\<dots> = ?rows ! i"
      proof -
        have "length (?rows ! i) = ?w" using len that by simp
        then show ?thesis using map_nth [of "?rows ! i"] by simp
      qed
      finally show ?thesis .
    qed
    have "map (\<lambda>r. map (cell_char (grid m) r) (py_range (int ?w)) @ [newline])
            (py_range (int (length ?rows)))
        = map (\<lambda>i. ?rows ! i @ [newline]) [0..<length ?rows]"
      using row by (simp add: py_range_def)
    also have "\<dots> = map (\<lambda>row. row @ [newline]) (map (\<lambda>i. ?rows ! i) [0..<length ?rows])"
      by simp
    also have "\<dots> = map (\<lambda>row. row @ [newline]) ?rows" by (simp only: map_nth)
    finally show ?thesis by (simp add: block_def)
  qed
  ultimately show ?thesis by simp
qed

theorem render_roundtrip_witness:
  "Maze_init (''S  '' @ [newline] @ ''//c'' @ [newline] @ [newline] @ '' # '' @ [newline] @ ''  E''
      @ [newline]) = Inr maze_scenario \<and>
   raw_maze (''S  '' @ [newline] @ ''//c'' @ [newline] @ [newline] @ '' # '' @ [newline] @ ''  E''
      @ [newline]) = [''S  '', '' # '', ''  E''] \<and>
   Maze_str maze_scenario = Inr (''S  '' @ [newline] @ '' # '' @ [newline] @ ''  E'' @ [newline])"
proof -
  have a: "Maze_init (''S  '' @ [newline] @ ''//c'' @ [newline] @ [newline] @ '' # '' @ [newline]
      @ ''  E'' @ [newline]) = Inr maze_scenario" by code_simp
  have b: "raw_maze (''S  '' @ [newline] @ ''//c'' @ [newline] @ [newline] @ '' # '' @ [newline]
      @ ''  E'' @ [newline]) = [''S  '', '' # '', ''  E'']" by code_simp
  show ?thesis using render_roundtrip [OF a] a b by simp
qed

section \<open>Empty lines\<close>

text \<open>\<^verbatim>\<open>"\n".join(lines)\<close>: the text whose lines are the given ones.\<close>

fun join_newline :: "string list \<Rightarrow> string" where
  "join_newline [] = []"
| "join_newline [l] = l"
| "join_newline (l # l' # ls) = l @ newline # join_newline (l' # ls)"

lemma split_newline_nonempty: "split_newline s \<noteq> []"
  by (induction s) (auto split: list.splits)

lemma split_newline_no_newline: "\<forall>l\<in>set (split_newline s). newline \<notin> set l"
proof (induction s)
  case Nil
  then show ?case by simp
next
  case (Cons c cs)
  then show ?case by (cases "split_newline cs") auto
qed

lemma split_newline_line: "newline \<notin> set l \<Longrightarrow> split_newline l = [l]"
  by (induction l) auto

lemma split_newline_append:
  "newline \<notin> set l \<Longrightarrow> split_newline (l @ newline # rest) = l # split_newline rest"
  by (induction l) auto

lemma split_join_newline:
  "ls \<noteq> [] \<Longrightarrow> \<forall>l\<in>set ls. newline \<notin> set l \<Longrightarrow> split_newline (join_newline ls) = ls"
proof (induction ls rule: join_newline.induct)
  case 1
  then show ?case by simp
next
  case (2 l)
  then show ?case by (simp add: split_newline_line)
next
  case (3 l l' ls)
  then show ?case by (simp add: split_newline_append)
qed

lemma split_newline_trailing: "split_newline (s @ [newline]) = split_newline s @ [[]]"
proof (induction s)
  case Nil
  then show ?case by simp
next
  case (Cons c cs)
  then show ?case using split_newline_nonempty [of cs] by (cases "split_newline cs") auto
qed

lemma raw_maze_join:
  assumes "\<forall>l\<in>set ls. newline \<notin> set l"
  shows "raw_maze (join_newline ls) = filter (\<lambda>x. length x \<noteq> 0 \<and> \<not> startswith x ''//'') ls"
proof (cases "ls = []")
  case True
  then show ?thesis by (simp add: raw_maze_def)
next
  case False
  then show ?thesis using split_join_newline [OF False assms] by (simp add: raw_maze_def)
qed

lemma Maze_init_raw_maze: "raw_maze text = raw_maze text' \<Longrightarrow> Maze_init text = Maze_init text'"
  by (simp add: Maze_init_def)

text \<open>
  Claim C10: the constructor discards every empty line of the text as it discards a comment line.
  The maze (or the error) it gives for a text is the one it gives for the text with all empty
  lines taken out, and likewise with all comment lines taken out; so empty lines add no row and
  do not count in the comparison of the row lengths. In particular a newline at the end of the
  text changes nothing.
\<close>

theorem empty_lines_discarded:
  "Maze_init text = Maze_init (join_newline (filter (\<lambda>l. l \<noteq> []) (split_newline text))) \<and>
   Maze_init text
     = Maze_init (join_newline (filter (\<lambda>l. \<not> startswith l ''//'') (split_newline text))) \<and>
   raw_maze text = filter (\<lambda>l. \<not> startswith l ''//'') (filter (\<lambda>l. l \<noteq> []) (split_newline text)) \<and>
   Maze_init (text @ [newline]) = Maze_init text"
proof -
  let ?ls = "split_newline text"
  let ?P = "\<lambda>x. length x \<noteq> 0 \<and> \<not> startswith x ''//''"
  have nl: "\<forall>l\<in>set ?ls. newline \<notin> set l" by (rule split_newline_no_newline)
  have "raw_maze (join_newline (filter (\<lambda>l. l \<noteq> []) ?ls)) = filter ?P (filter (\<lambda>l. l \<noteq> []) ?ls)"
    using nl by (intro raw_maze_join) simp
  also have "\<dots> = raw_maze text" by (auto simp: raw_maze_def intro!: filter_cong)
  finally have a: "Maze_init text = Maze_init (join_newline (filter (\<lambda>l. l \<noteq> []) ?ls))"
    by (intro Maze_init_raw_maze) simp
  have "raw_maze (join_newline (filter (\<lambda>l. \<not> startswith l ''//'') ?ls))
      = filter ?P (filter (\<lambda>l. \<not> startswith l ''//'') ?ls)"
    using nl by (intro raw_maze_join) simp
  also have "\<dots> = raw_maze text" by (auto simp: raw_maze_def intro!: filter_cong)
  finally have b: "Maze_init text
      = Maze_init (join_newline (filter (\<lambda>l. \<not> startswith l ''//'') ?ls))"
    by (intro Maze_init_raw_maze) simp
  have c: "raw_maze text = filter (\<lambda>l. \<not> startswith l ''//'') (filter (\<lambda>l. l \<noteq> []) ?ls)"
    by (auto simp: raw_maze_def intro!: filter_cong)
  have "raw_maze (text @ [newline]) = raw_maze text"
    by (simp add: raw_maze_def split_newline_trailing)
  then have d: "Maze_init (text @ [newline]) = Maze_init text" by (rule Maze_init_raw_maze)
  show ?thesis using a b c d by blast
qed

theorem empty_lines_discarded_witness:
  "Maze_init ([newline] @ ''S  '' @ [newline] @ [newline] @ '' # '' @ [newline] @ ''  E''
      @ [newline] @ [newline]) = Inr maze_scenario \<and>
   join_newline (filter (\<lambda>l. l \<noteq> []) (split_newline ([newline] @ ''S  '' @ [newline] @ [newline]
      @ '' # '' @ [newline] @ ''  E'' @ [newline] @ [newline])))
     = ''S  '' @ [newline] @ '' # '' @ [newline] @ ''  E'' \<and>
   Maze_init (''S  '' @ [newline] @ '' # '' @ [newline] @ ''  E'') = Inr maze_scenario"
proof -
  let ?text = "[newline] @ ''S  '' @ [newline] @ [newline] @ '' # '' @ [newline] @ ''  E''
      @ [newline] @ [newline]"
  have a: "Maze_init ?text = Inr maze_scenario" by code_simp
  have b: "join_newline (filter (\<lambda>l. l \<noteq> []) (split_newline ?text))
      = ''S  '' @ [newline] @ '' # '' @ [newline] @ ''  E''" by code_simp
  show ?thesis using empty_lines_discarded [of ?text] a b by simp
qed

end
